theory Spec2Isabelle
  imports Main "HOL-Library.Sublist"
begin

section \<open>Wall-clock readings and the timestamp file name\<close>

text \<open>
  \<^verbatim>\<open>datetime.now()\<close> returns a naive local date and time: a value with the fields
  below. The constructor of Python's \<^verbatim>\<open>datetime\<close> only builds values that satisfy
  \<open>valid_datetime\<close>.
\<close>

record datetime =
  year :: nat
  month :: nat
  day :: nat
  hour :: nat
  minute :: nat
  second :: nat
  microsecond :: nat

definition is_leap :: "nat \<Rightarrow> bool" where
  "is_leap y = (y mod 4 = 0 \<and> (y mod 100 \<noteq> 0 \<or> y mod 400 = 0))"

definition DAYS_IN_MONTH :: "nat list" where
  "DAYS_IN_MONTH = [0, 31, 28, 31, 30, 31, 30, 31, 31, 30, 31, 30, 31]"

definition DAYS_BEFORE_MONTH :: "nat list" where
  "DAYS_BEFORE_MONTH = [0, 0, 31, 59, 90, 120, 151, 181, 212, 243, 273, 304, 334]"

definition days_in_month :: "nat \<Rightarrow> nat \<Rightarrow> nat" where
  "days_in_month y m = (if m = 2 \<and> is_leap y then 29 else DAYS_IN_MONTH ! m)"

definition days_before_year :: "nat \<Rightarrow> nat" where
  "days_before_year y = (let z = y - 1 in z * 365 + z div 4 - z div 100 + z div 400)"

definition days_before_month :: "nat \<Rightarrow> nat \<Rightarrow> nat" where
  "days_before_month y m = DAYS_BEFORE_MONTH ! m + (if m > 2 \<and> is_leap y then 1 else 0)"

definition ymd2ord :: "nat \<Rightarrow> nat \<Rightarrow> nat \<Rightarrow> nat" where
  "ymd2ord y m d = days_before_year y + days_before_month y m + d"

definition valid_datetime :: "datetime \<Rightarrow> bool" where
  "valid_datetime t =
     (1 \<le> year t \<and> year t \<le> 9999 \<and> 1 \<le> month t \<and> month t \<le> 12 \<and>
      1 \<le> day t \<and> day t \<le> days_in_month (year t) (month t) \<and>
      hour t < 24 \<and> minute t < 60 \<and> second t < 60 \<and> microsecond t < 1000000)"

text \<open>
  The linear time scale on which Python subtracts two \<^verbatim>\<open>datetime\<close> values: the
  proleptic Gregorian ordinal of the date, then the seconds and microseconds of the day.
\<close>

definition epoch_second :: "datetime \<Rightarrow> nat" where
  "epoch_second t =
     ymd2ord (year t) (month t) (day t) * 86400 + hour t * 3600 + minute t * 60 + second t"

definition total_micros :: "datetime \<Rightarrow> nat" where
  "total_micros t = epoch_second t * 1000000 + microsecond t"

text \<open>Distance between two readings in microseconds, as \<^verbatim>\<open>abs(a - b)\<close> gives it.\<close>

definition micros_apart :: "datetime \<Rightarrow> datetime \<Rightarrow> nat" where
  "micros_apart a b = nat \<bar>int (total_micros a) - int (total_micros b)\<bar>"

text \<open>
  \<^verbatim>\<open>strftime("%Y%m%d_%H%M%S")\<close>: the year as four decimal digits, every other field
  as two, zero-padded.
\<close>

definition digit :: "nat \<Rightarrow> char" where
  "digit n = ''0123456789'' ! (n mod 10)"

definition pad2 :: "nat \<Rightarrow> string" where
  "pad2 n = [digit (n div 10), digit n]"

definition pad4 :: "nat \<Rightarrow> string" where
  "pad4 n = [digit (n div 1000), digit (n div 100), digit (n div 10), digit n]"

definition strftime :: "datetime \<Rightarrow> string" where
  "strftime t =
     pad4 (year t) @ pad2 (month t) @ pad2 (day t) @ ''_'' @
     pad2 (hour t) @ pad2 (minute t) @ pad2 (second t)"

text \<open>\<^verbatim>\<open>filename = datetime.now().strftime("%Y%m%d_%H%M%S") + ".jpg"\<close>\<close>

definition filename_of :: "datetime \<Rightarrow> string" where
  "filename_of t = strftime t @ ''.jpg''"

text \<open>
  Reading a file name back: the decimal value of a run of digit characters, and the six
  fields of a name of the shape \<^verbatim>\<open>YYYYMMDD_HHMMSS.jpg\<close>.
\<close>

definition digit_val :: "char \<Rightarrow> nat" where
  "digit_val c = length (takeWhile (\<lambda>d. d \<noteq> c) ''0123456789'')"

definition decimal :: "string \<Rightarrow> nat" where
  "decimal cs = foldl (\<lambda>a c. 10 * a + digit_val c) 0 cs"

definition field :: "nat \<Rightarrow> nat \<Rightarrow> string \<Rightarrow> nat" where
  "field i n cs = decimal (take n (drop i cs))"

definition name_fields :: "string \<Rightarrow> nat \<times> nat \<times> nat \<times> nat \<times> nat \<times> nat" where
  "name_fields cs =
     (field 0 4 cs, field 4 2 cs, field 6 2 cs, field 9 2 cs, field 11 2 cs, field 13 2 cs)"

definition name_second :: "string \<Rightarrow> nat" where
  "name_second cs =
     (case name_fields cs of (y, m, d, h, mi, s) \<Rightarrow>
        ymd2ord y m d * 86400 + h * 3600 + mi * 60 + s)"

section \<open>The file system and the library calls the program makes\<close>

text \<open>
  A path is the list of its components below the working directory; the empty path is
  the working directory itself, which is always a directory. A frame is the pixel data
  of one decoded image.
\<close>

type_synonym frame = "nat list"

type_synonym path = "string list"

datatype node = Dir | File frame

type_synonym filesystem = "path \<Rightarrow> node option"

datatype py_error = FileExistsError | FileNotFoundError | NotADirectoryError | KeyboardInterrupt

definition path_exists :: "filesystem \<Rightarrow> path \<Rightarrow> bool" where
  "path_exists fs p = (p = [] \<or> fs p \<noteq> None)"

definition isdir :: "filesystem \<Rightarrow> path \<Rightarrow> bool" where
  "isdir fs p = (p = [] \<or> fs p = Some Dir)"

text \<open>\<^verbatim>\<open>os.mkdir\<close>: the parent must be a directory and the path itself must be free.\<close>

definition mkdir :: "filesystem \<Rightarrow> path \<Rightarrow> py_error + filesystem" where
  "mkdir fs p =
     (if p = [] then Inl FileNotFoundError
      else if \<not> path_exists fs (butlast p) then Inl FileNotFoundError
      else if \<not> isdir fs (butlast p) then Inl NotADirectoryError
      else if fs p \<noteq> None then Inl FileExistsError
      else Inr (fs(p \<mapsto> Dir)))"

text \<open>
  \<^verbatim>\<open>os.makedirs(name, exist_ok)\<close> as the standard library writes it: create the
  missing parent first (a parent that appears meanwhile is no error), then the leaf; an
  error of the leaf's \<^verbatim>\<open>mkdir\<close> is swallowed only when \<^verbatim>\<open>exist_ok\<close> is set
  and the leaf is a directory.
\<close>

definition mkdir_leaf :: "filesystem \<Rightarrow> path \<Rightarrow> bool \<Rightarrow> py_error + filesystem" where
  "mkdir_leaf fs name exist_ok =
     (case mkdir fs name of
        Inr fs' \<Rightarrow> Inr fs'
      | Inl e \<Rightarrow> if \<not> exist_ok \<or> \<not> isdir fs name then Inl e else Inr fs)"

function makedirs :: "filesystem \<Rightarrow> path \<Rightarrow> bool \<Rightarrow> py_error + filesystem" where
  "makedirs fs name exist_ok =
     (if butlast name \<noteq> [] \<and> \<not> path_exists fs (butlast name) then
        (case makedirs fs (butlast name) exist_ok of
           Inl e \<Rightarrow>
             if e = FileExistsError then mkdir_leaf fs name exist_ok else Inl e
         | Inr fs' \<Rightarrow>
             if last name = ''.'' then Inr fs' else mkdir_leaf fs' name exist_ok)
      else mkdir_leaf fs name exist_ok)"
  by pat_completeness auto
termination
proof (relation "measure (\<lambda>(fs, name, exist_ok). length name)", goal_cases)
  case 1
  show ?case by simp
next
  case (2 fs name exist_ok)
  then have "name \<noteq> []" by auto
  then show ?case by simp
qed

declare makedirs.simps [simp del]

text \<open>
  \<^verbatim>\<open>cv2.imwrite(path, frame)\<close> returns whether the image was written; it writes
  the whole image or nothing, and needs the directory of the path to exist.
\<close>

definition imwrite :: "filesystem \<Rightarrow> path \<Rightarrow> frame \<Rightarrow> bool \<times> filesystem" where
  "imwrite fs p f =
     (if p \<noteq> [] \<and> isdir fs (butlast p) \<and> fs p \<noteq> Some Dir then (True, fs(p \<mapsto> File f))
      else (False, fs))"

text \<open>\<^verbatim>\<open>os.path.join(save_dir, filename)\<close> and the text of a path when printed.\<close>

definition path_join :: "path \<Rightarrow> string \<Rightarrow> path" where
  "path_join d name = d @ [name]"

fun path_str :: "path \<Rightarrow> string" where
  "path_str [] = []"
| "path_str [c] = c"
| "path_str (c # cs) = c @ ''/'' @ path_str cs"

text \<open>\<^verbatim>\<open>exit(code)\<close>: without an argument the exit status is 0.\<close>

definition exit_status :: "nat option \<Rightarrow> nat" where
  "exit_status code = (case code of None \<Rightarrow> 0 | Some c \<Rightarrow> c)"

section \<open>The program\<close>

text \<open>
  What the program does to the outside world is recorded in order, one event per call.
  What the outside world does to the program is its input: whether the stream opens,
  the file system at launch, and for every pass through the loop what the read returns,
  what the clock says, and where a Ctrl+C lands, if one does.
\<close>

datatype read_result = Frame_ok frame | No_frame | Interrupted

datatype event =
    VideoCapture string
  | IsOpened bool
  | Print string
  | Exit
  | Makedirs path
  | Read read_result
  | Now datetime
  | Imwrite path frame bool
  | Sleep nat
  | Release
  | DestroyAllWindows

record state =
  fs :: filesystem
  trace :: "event list"

definition emit :: "event \<Rightarrow> state \<Rightarrow> state" where
  "emit e s = s\<lparr>trace := trace s @ [e]\<rparr>"

datatype signal_point = No_signal | After_read | After_write | During_sleep

datatype step_input =
    Read_interrupted
  | Read_failed
  | Read_ok frame datetime signal_point

datatype loop_exit = Break | Raise py_error

datatype outcome = Exited nat | Finished | Crashed py_error

definition stream_url :: string where
  "stream_url = ''http://192.168.137.50:5000/video_feed''"

definition save_dir :: path where
  "save_dir = [''captured_images'']"

definition msg_open_error :: string where
  "msg_open_error = ''Error: Could not open video stream.''"

definition msg_start :: string where
  "msg_start = ''Capturing images every 20 seconds... Press Ctrl+C to stop.''"

definition msg_read_failed :: string where
  "msg_read_failed = ''Failed to grab frame.''"

definition msg_stopped :: string where
  "msg_stopped = CHR 0x0A # ''Stopped by user.''"

definition msg_saved :: "path \<Rightarrow> string" where
  "msg_saved filepath = ''Saved: '' @ path_str filepath"

text \<open>The block under \<^verbatim>\<open># Save frame\<close>, up to the call of \<^verbatim>\<open>cv2.imwrite\<close>.\<close>

definition filepath_of :: "datetime \<Rightarrow> path" where
  "filepath_of t = path_join save_dir (filename_of t)"

definition write_frame :: "state \<Rightarrow> frame \<Rightarrow> datetime \<Rightarrow> state" where
  "write_frame s f t =
     (let s1 = emit (Now t) s;
          filepath = filepath_of t;
          (ok, fs') = imwrite (fs s1) filepath f
      in emit (Imwrite filepath f ok) (s1\<lparr>fs := fs'\<rparr>))"

definition print_saved :: "state \<Rightarrow> datetime \<Rightarrow> state" where
  "print_saved s t = emit (Print (msg_saved (filepath_of t))) s"

definition sleep_interval :: "state \<Rightarrow> state" where
  "sleep_interval s = emit (Sleep 60) s"

text \<open>
  One pass through the body of \<^verbatim>\<open>while True\<close>. The result is \<open>None\<close> when the
  loop goes on, \<open>Some Break\<close> after \<^verbatim>\<open>break\<close>, and \<open>Some (Raise e)\<close> when an
  exception leaves the body.
\<close>

fun loop_body :: "state \<Rightarrow> step_input \<Rightarrow> loop_exit option \<times> state" where
  "loop_body s Read_interrupted = (Some (Raise KeyboardInterrupt), emit (Read Interrupted) s)"
| "loop_body s Read_failed =
     (Some Break, emit (Print msg_read_failed) (emit (Read No_frame) s))"
| "loop_body s (Read_ok f t sp) =
     (let s1 = emit (Read (Frame_ok f)) s in
      if sp = After_read then (Some (Raise KeyboardInterrupt), s1)
      else
        let s2 = write_frame s1 f t in
        if sp = After_write then (Some (Raise KeyboardInterrupt), s2)
        else
          let s3 = print_saved s2 t in
          if sp = During_sleep then (Some (Raise KeyboardInterrupt), sleep_interval s3)
          else (None, sleep_interval s3))"

text \<open>
  The loop runs for as long as the input lasts; \<open>None\<close> means that it has not left
  the loop when the input ends.
\<close>

fun capture_loop :: "state \<Rightarrow> step_input list \<Rightarrow> loop_exit option \<times> state" where
  "capture_loop s [] = (None, s)"
| "capture_loop s (i # rest) =
     (case loop_body s i of
        (None, s') \<Rightarrow> capture_loop s' rest
      | (Some ex, s') \<Rightarrow> (Some ex, s'))"

definition cleanup :: "state \<Rightarrow> state" where
  "cleanup s = emit DestroyAllWindows (emit Release s)"

text \<open>
  Leaving the \<^verbatim>\<open>try\<close> statement: a \<^verbatim>\<open>break\<close> falls through to the last two
  lines, \<^verbatim>\<open>KeyboardInterrupt\<close> is handled and falls through as well, any other
  exception leaves the program.
\<close>

fun after_try :: "loop_exit \<Rightarrow> state \<Rightarrow> outcome \<times> state" where
  "after_try Break s = (Finished, cleanup s)"
| "after_try (Raise KeyboardInterrupt) s = (Finished, cleanup (emit (Print msg_stopped) s))"
| "after_try (Raise e) s = (Crashed e, s)"

definition run_frames :: "bool \<Rightarrow> filesystem \<Rightarrow> step_input list \<Rightarrow> outcome option \<times> state" where
  "run_frames opens fs0 script =
     (let s1 = emit (IsOpened opens) (emit (VideoCapture stream_url) \<lparr>fs = fs0, trace = []\<rparr>) in
      if \<not> opens then
        (Some (Exited (exit_status None)), emit Exit (emit (Print msg_open_error) s1))
      else
        (case makedirs (fs s1) save_dir True of
           Inl e \<Rightarrow> (Some (Crashed e), emit (Makedirs save_dir) s1)
         | Inr fs' \<Rightarrow>
             let s2 = emit (Print msg_start) (emit (Makedirs save_dir) (s1\<lparr>fs := fs'\<rparr>)) in
             (case capture_loop s2 script of
                (None, s3) \<Rightarrow> (None, s3)
              | (Some ex, s3) \<Rightarrow> (case after_try ex s3 of (oc, s4) \<Rightarrow> (Some oc, s4)))))"

text \<open>What is read off a trace.\<close>

definition saves :: "event list \<Rightarrow> (path \<times> frame \<times> bool) list" where
  "saves tr = concat (map (\<lambda>e. case e of Imwrite p f ok \<Rightarrow> [(p, f, ok)] | _ \<Rightarrow> []) tr)"

definition frames_read :: "event list \<Rightarrow> frame list" where
  "frames_read tr = concat (map (\<lambda>e. case e of Read (Frame_ok f) \<Rightarrow> [f] | _ \<Rightarrow> []) tr)"

definition reads :: "event list \<Rightarrow> read_result list" where
  "reads tr = concat (map (\<lambda>e. case e of Read r \<Rightarrow> [r] | _ \<Rightarrow> []) tr)"

definition clock_readings :: "event list \<Rightarrow> datetime list" where
  "clock_readings tr = concat (map (\<lambda>e. case e of Now t \<Rightarrow> [t] | _ \<Rightarrow> []) tr)"

definition printed :: "event list \<Rightarrow> string list" where
  "printed tr = concat (map (\<lambda>e. case e of Print m \<Rightarrow> [m] | _ \<Rightarrow> []) tr)"

definition sleeps :: "event list \<Rightarrow> nat list" where
  "sleeps tr = concat (map (\<lambda>e. case e of Sleep n \<Rightarrow> [n] | _ \<Rightarrow> []) tr)"

definition releases :: "event list \<Rightarrow> nat" where
  "releases tr = count_list tr Release"

definition opens_of :: "event list \<Rightarrow> nat" where
  "opens_of tr = length (concat (map (\<lambda>e. case e of VideoCapture u \<Rightarrow> [u] | _ \<Rightarrow> []) tr))"

section \<open>Notions used in the statements\<close>

text \<open>A disk with nothing below the working directory.\<close>

definition no_files :: filesystem where
  "no_files = (\<lambda>p. None)"

text \<open>
  At launch the output directory is absent or is a directory: the case in which
  \<^verbatim>\<open>os.makedirs(save_dir, exist_ok=True)\<close> does not raise.
\<close>

definition launch_ok :: "filesystem \<Rightarrow> bool" where
  "launch_ok fs0 = (fs0 save_dir = None \<or> fs0 save_dir = Some Dir)"

text \<open>No entry of the output directory is itself a directory.\<close>

definition names_free :: "filesystem \<Rightarrow> bool" where
  "names_free fs0 = (\<forall>name. fs0 (path_join save_dir name) \<noteq> Some Dir)"

text \<open>A pass through the loop in which the read succeeds and no Ctrl+C arrives.\<close>

definition complete :: "step_input \<Rightarrow> bool" where
  "complete i = (case i of Read_ok f t sp \<Rightarrow> sp = No_signal | _ \<Rightarrow> False)"

text \<open>A pass through the loop in which a Ctrl+C arrives.\<close>

definition cancelled :: "step_input \<Rightarrow> bool" where
  "cancelled i =
     (case i of Read_interrupted \<Rightarrow> True | Read_failed \<Rightarrow> False
      | Read_ok f t sp \<Rightarrow> sp \<noteq> No_signal)"

text \<open>The state in which the loop is entered.\<close>

definition launched :: "filesystem \<Rightarrow> state" where
  "launched fs0 =
     \<lparr>fs = fs0(save_dir \<mapsto> Dir),
      trace = [VideoCapture stream_url, IsOpened True, Makedirs save_dir, Print msg_start]\<rparr>"

text \<open>
  The exit status the operating system sees: the argument of \<^verbatim>\<open>exit\<close>, 0 after the
  last statement, 1 after an exception that nothing handles.
\<close>

definition exit_code :: "outcome \<Rightarrow> nat" where
  "exit_code oc = (case oc of Exited n \<Rightarrow> n | Finished \<Rightarrow> 0 | Crashed e \<Rightarrow> 1)"

text \<open>Two clock readings a minute apart, for the runs on which the statements are tried.\<close>

definition reading_a :: datetime where
  "reading_a = \<lparr>year = 2024, month = 3, day = 9, hour = 14, minute = 5, second = 7,
     microsecond = 250000\<rparr>"

definition reading_b :: datetime where
  "reading_b = \<lparr>year = 2024, month = 3, day = 9, hour = 14, minute = 6, second = 7,
     microsecond = 410000\<rparr>"

text \<open>The output directory is a directory and holds no directory.\<close>

definition dir_ready :: "state \<Rightarrow> bool" where
  "dir_ready s = (fs s save_dir = Some Dir \<and> names_free (fs s))"

text \<open>Every call of \<^verbatim>\<open>cv2.imwrite\<close> in the trace returned true.\<close>

definition saves_ok :: "event list \<Rightarrow> bool" where
  "saves_ok tr = (\<forall>x\<in>set (saves tr). snd (snd x))"

text \<open>
  Along the path \<open>p\<close> nothing but directories: every entry on the way is absent or a
  directory, and an entry that exists has a parent that exists.
\<close>

definition chain_ok :: "filesystem \<Rightarrow> path \<Rightarrow> bool" where
  "chain_ok fs0 p =
     (\<forall>q. q \<noteq> [] \<and> prefix q p \<longrightarrow>
        (fs0 q = None \<or> fs0 q = Some Dir) \<and>
        (fs0 q \<noteq> None \<and> butlast q \<noteq> [] \<longrightarrow> fs0 (butlast q) \<noteq> None))"

text \<open>The disk with \<open>p\<close> and every parent of \<open>p\<close> made a directory.\<close>

definition dirs_along :: "filesystem \<Rightarrow> path \<Rightarrow> filesystem" where
  "dirs_along fs0 p = (\<lambda>q. if q \<noteq> [] \<and> prefix q p then Some Dir else fs0 q)"

text \<open>The reading \<open>b\<close> is more than one second later than \<open>a\<close>.\<close>

definition later_by_a_second :: "datetime \<Rightarrow> datetime \<Rightarrow> bool" where
  "later_by_a_second a b = (total_micros a + 1000000 < total_micros b)"

text \<open>The file names of the saves of a trace, in order.\<close>

definition saved_names :: "event list \<Rightarrow> string list" where
  "saved_names tr = map (\<lambda>x. last (fst x)) (saves tr)"

text \<open>The frames handed to \<^verbatim>\<open>cv2.imwrite\<close>, in order.\<close>

definition written :: "event list \<Rightarrow> frame list" where
  "written tr = map (\<lambda>x. fst (snd x)) (saves tr)"

text \<open>
  The saves have caught up with the reads (\<open>aligned\<close>), or the last frame read is
  still to be saved (\<open>behind\<close>).
\<close>

definition aligned :: "event list \<Rightarrow> bool" where
  "aligned tr = (written tr = frames_read tr)"

definition behind :: "event list \<Rightarrow> bool" where
  "behind tr = (\<exists>f. frames_read tr = written tr @ [f])"

text \<open>
  At every point of the trace the saves are level with the reads or one behind, and
  level whenever a read is made.
\<close>

definition in_step :: "event list \<Rightarrow> bool" where
  "in_step tr =
     (\<forall>q. prefix q tr \<longrightarrow>
        (aligned q \<or> behind q) \<and> (\<forall>q' r. q = q' @ [Read r] \<longrightarrow> aligned q'))"

text \<open>
  A trace that is in step, with the frame that is read and not yet saved, if there is
  one; and the scan of further events that keeps this frame up to date, failing when a
  read comes before the save of the last frame or a save without a frame to save.
\<close>

definition tracked :: "frame option \<Rightarrow> event list \<Rightarrow> bool" where
  "tracked pend tr =
     (in_step tr \<and>
      (case pend of None \<Rightarrow> aligned tr | Some f \<Rightarrow> frames_read tr = written tr @ [f]))"

fun track :: "frame option \<Rightarrow> event list \<Rightarrow> frame option option" where
  "track pend [] = Some pend"
| "track pend (Read r # es) =
     (if pend = None then track (case r of Frame_ok f \<Rightarrow> Some f | _ \<Rightarrow> None) es else None)"
| "track pend (Imwrite p f ok # es) = (if pend = Some f then track None es else None)"
| "track pend (e # es) = track pend es"

text \<open>A disk on which the path of the file for the reading \<open>reading_a\<close> is a directory.\<close>

definition dir_in_the_way :: filesystem where
  "dir_in_the_way = no_files(filepath_of reading_a \<mapsto> Dir)"

text \<open>
  The disk after a list of saves, each given by its path, its frame and the result of
  \<^verbatim>\<open>cv2.imwrite\<close>: a save that succeeded has put its frame at its path.
\<close>

fun replay :: "filesystem \<Rightarrow> (path \<times> frame \<times> bool) list \<Rightarrow> filesystem" where
  "replay fs0 [] = fs0"
| "replay fs0 ((p, f, ok) # xs) = replay (if ok then fs0(p \<mapsto> File f) else fs0) xs"

text \<open>
  The wall clock keeps time: every reading of the clock is later than the reading before
  it by at least the time the program has slept between the two. The scan carries the
  last reading and the seconds slept since.
\<close>

fun clock_kept :: "(datetime \<times> nat) option \<Rightarrow> event list \<Rightarrow> bool" where
  "clock_kept st [] = True"
| "clock_kept st (Now t # es) =
     ((case st of None \<Rightarrow> True
       | Some (t0, slept) \<Rightarrow> total_micros t0 + slept * 1000000 \<le> total_micros t)
      \<and> clock_kept (Some (t, 0)) es)"
| "clock_kept st (Sleep n # es) =
     clock_kept (case st of None \<Rightarrow> None | Some (t0, slept) \<Rightarrow> Some (t0, slept + n)) es"
| "clock_kept st (e # es) = clock_kept st es"

fun clock_state :: "(datetime \<times> nat) option \<Rightarrow> event list \<Rightarrow> (datetime \<times> nat) option" where
  "clock_state st [] = st"
| "clock_state st (Now t # es) = clock_state (Some (t, 0)) es"
| "clock_state st (Sleep n # es) =
     clock_state (case st of None \<Rightarrow> None | Some (t0, slept) \<Rightarrow> Some (t0, slept + n)) es"
| "clock_state st (e # es) = clock_state st es"

text \<open>
  At the head of the loop: no reading yet, or the last reading and at least the 60
  seconds of the sleep that followed it.
\<close>

definition slept_since_reading :: "event list \<Rightarrow> bool" where
  "slept_since_reading tr =
     (case clock_state None tr of
        None \<Rightarrow> clock_readings tr = []
      | Some (t0, slept) \<Rightarrow>
          clock_readings tr \<noteq> [] \<and> last (clock_readings tr) = t0 \<and> 60 \<le> slept)"

definition readings_advance :: "event list \<Rightarrow> bool" where
  "readings_advance tr =
     (clock_kept None tr \<longrightarrow> successively later_by_a_second (clock_readings tr))"

section \<open>Properties of the file name\<close>

lemma digit_val_nth: "k < 10 \<Longrightarrow> digit_val (''0123456789'' ! k) = k"
proof -
  assume "k < 10"
  then consider "k = 0" | "k = 1" | "k = 2" | "k = 3" | "k = 4" | "k = 5" | "k = 6"
    | "k = 7" | "k = 8" | "k = 9" by atomize_elim arith
  then show ?thesis
    by cases (simp_all add: digit_val_def)
qed

lemma digit_val_digit: "digit_val (digit n) = n mod 10"
  by (simp add: digit_def digit_val_nth)

lemma decimal_pad2: "n < 100 \<Longrightarrow> decimal (pad2 n) = n"
  by (simp add: decimal_def pad2_def digit_val_digit)

lemma decimal_pad4:
  assumes "n < 10000"
  shows "decimal (pad4 n) = n"
proof -
  have h: "n div 100 = n div 10 div 10" "n div 1000 = n div 10 div 10 div 10"
    by (simp_all add: div_mult2_eq)
  have "n div 10 div 10 div 10 < 10"
    using assms by (simp add: div_mult2_eq less_mult_imp_div_less)
  then have "n div 10 div 10 div 10 mod 10 = n div 10 div 10 div 10" by simp
  then show ?thesis
    by (simp add: decimal_def pad4_def digit_val_digit h)
qed

lemma length_pad2: "length (pad2 n) = 2"
  by (simp add: pad2_def)

lemma length_pad4: "length (pad4 n) = 4"
  by (simp add: pad4_def)

lemma length_filename_of: "length (filename_of t) = 19"
  by (simp add: filename_of_def strftime_def length_pad2 length_pad4)

lemma days_in_month_le: "1 \<le> m \<Longrightarrow> m \<le> 12 \<Longrightarrow> days_in_month y m \<le> 31"
proof -
  assume "1 \<le> m" "m \<le> 12"
  then consider "m = 1" | "m = 2" | "m = 3" | "m = 4" | "m = 5" | "m = 6" | "m = 7"
    | "m = 8" | "m = 9" | "m = 10" | "m = 11" | "m = 12" by atomize_elim arith
  then show ?thesis
    by cases (simp_all add: days_in_month_def DAYS_IN_MONTH_def)
qed

lemma name_fields_filename_of:
  assumes "valid_datetime t"
  shows "name_fields (filename_of t) =
           (year t, month t, day t, hour t, minute t, second t)"
proof -
  have "days_in_month (year t) (month t) \<le> 31"
    using assms by (simp add: valid_datetime_def days_in_month_le)
  then have d: "day t \<le> 31"
    using assms by (simp add: valid_datetime_def)
  have b: "year t < 10000" "month t < 100" "day t < 100" "hour t < 100"
    "minute t < 100" "second t < 100"
    using assms d by (simp_all add: valid_datetime_def)
  show ?thesis
    using b
    by (simp add: name_fields_def field_def filename_of_def strftime_def
        length_pad2 length_pad4 decimal_pad2 decimal_pad4)
qed

lemma name_second_filename_of:
  "valid_datetime t \<Longrightarrow> name_second (filename_of t) = epoch_second t"
  by (simp add: name_second_def name_fields_filename_of epoch_second_def)

lemma epoch_second_step:
  assumes "microsecond a < 1000000" "microsecond b < 1000000"
    and "total_micros a + 1000000 < total_micros b"
  shows "epoch_second a < epoch_second b"
  using assms by (simp add: total_micros_def)

section \<open>The run up to the loop, and the loop as a whole\<close>

lemma trace_emit: "trace (emit e s) = trace s @ [e]"
  by (simp add: emit_def)

lemma fs_emit: "fs (emit e s) = fs s"
  by (simp add: emit_def)

lemma makedirs_save_dir:
  "launch_ok fs0 \<Longrightarrow> makedirs fs0 save_dir True = Inr (fs0(save_dir \<mapsto> Dir))"
  by (subst makedirs.simps)
    (auto simp: launch_ok_def save_dir_def mkdir_leaf_def mkdir_def path_exists_def isdir_def
      fun_upd_idem)

lemma run_frames_launched:
  "launch_ok fs0 \<Longrightarrow>
   run_frames True fs0 script =
     (case capture_loop (launched fs0) script of
        (None, s3) \<Rightarrow> (None, s3)
      | (Some ex, s3) \<Rightarrow> (case after_try ex s3 of (oc, s4) \<Rightarrow> (Some oc, s4)))"
  by (simp add: run_frames_def makedirs_save_dir launched_def emit_def)

lemma capture_loop_complete:
  "\<forall>i\<in>set pre. complete i \<Longrightarrow> fst (capture_loop s pre) = None"
proof (induction pre arbitrary: s)
  case Nil
  then show ?case by simp
next
  case (Cons i pre)
  then obtain f t where i: "i = Read_ok f t No_signal"
    by (cases i) (auto simp: complete_def)
  show ?case using Cons by (simp add: i Let_def)
qed

lemma capture_loop_append:
  "fst (capture_loop s pre) = None \<Longrightarrow>
   capture_loop s (pre @ rest) = capture_loop (snd (capture_loop s pre)) rest"
proof (induction pre arbitrary: s)
  case Nil
  then show ?case by simp
next
  case (Cons i pre)
  then show ?case
    by (cases "loop_body s i") (auto split: option.splits)
qed

lemma capture_loop_snoc:
  "fst (capture_loop s pre) = None \<Longrightarrow>
   capture_loop s (pre @ i # rest) =
     (case loop_body (snd (capture_loop s pre)) i of
        (None, s') \<Rightarrow> capture_loop s' rest
      | (Some ex, s') \<Rightarrow> (Some ex, s'))"
  by (simp add: capture_loop_append)

lemma capture_loop_invariant:
  assumes "P s" and "\<And>s i. P s \<Longrightarrow> fst (loop_body s i) = None \<Longrightarrow> P (snd (loop_body s i))"
    and "\<And>s i. P s \<Longrightarrow> fst (loop_body s i) \<noteq> None \<Longrightarrow> Q (snd (loop_body s i))"
    and "\<And>s. P s \<Longrightarrow> Q s"
  shows "Q (snd (capture_loop s script))"
  using assms(1)
proof (induction script arbitrary: s)
  case Nil
  then show ?case by (simp add: assms(4))
next
  case (Cons i script)
  show ?case
  proof (cases "loop_body s i")
    case (Pair ex s')
    show ?thesis
    proof (cases ex)
      case None
      with Pair Cons.prems have "P s'" using assms(2)[of s i] by simp
      then show ?thesis using Cons.IH Pair None by simp
    next
      case (Some e)
      with Pair Cons.prems have "Q s'" using assms(3)[of s i] by simp
      then show ?thesis using Pair Some by simp
    qed
  qed
qed

section \<open>The stream does not open\<close>

text \<open>
  C2, as the program behaves: when the stream cannot be opened, the run consists of
  opening the stream, finding it closed, printing the error message and calling
  \<^verbatim>\<open>exit()\<close>, whose exit status without an argument is 0. It ends before any pass
  through the loop (no frame is read, nothing is saved) and leaves the file system as it
  found it: the output directory has not been created.
\<close>

theorem open_failure_run:
  "run_frames False fs0 script =
     (Some (Exited 0),
      \<lparr>fs = fs0,
       trace = [VideoCapture stream_url, IsOpened False, Print msg_open_error, Exit]\<rparr>)"
  by (simp add: run_frames_def emit_def exit_status_def)

text \<open>
  C2 as stated asks for a non-zero exit status. On a disk without files, with a stream
  that does not open, the exit status is 0.
\<close>

theorem open_failure_exit_status_zero:
  "map_option exit_code (fst (run_frames False no_files [])) = Some 0"
  by (simp add: run_frames_def emit_def exit_status_def exit_code_def)

section \<open>One pass through the loop\<close>

lemmas trace_reading_defs =
  saves_def frames_read_def reads_def clock_readings_def printed_def sleeps_def releases_def
  opens_of_def

lemmas statement_defs =
  emit_def write_frame_def print_saved_def sleep_interval_def cleanup_def

lemma loop_body_complete:
  "loop_body s (Read_ok f t No_signal) =
     (None,
      \<lparr>fs = snd (imwrite (fs s) (filepath_of t) f),
       trace = trace s @
         [Read (Frame_ok f), Now t,
          Imwrite (filepath_of t) f (fst (imwrite (fs s) (filepath_of t) f)),
          Print (msg_saved (filepath_of t)), Sleep 60]\<rparr>)"
  by (simp add: statement_defs Let_def split: prod.splits)

lemma loop_body_not_complete:
  "\<not> complete i \<Longrightarrow> fst (loop_body s i) \<noteq> None"
proof (cases i)
  case (Read_ok f t sp)
  assume "\<not> complete i"
  then show ?thesis
    unfolding Read_ok by (cases sp) (simp_all add: complete_def Let_def)
qed simp_all

lemma loop_body_continues:
  "fst (loop_body s i) = None \<Longrightarrow> complete i"
  using loop_body_not_complete by blast

lemma complete_loop_counts:
  assumes "\<forall>i\<in>set pre. complete i"
  shows "length (saves (trace (snd (capture_loop s pre)))) = length (saves (trace s)) + length pre
    \<and> length (reads (trace (snd (capture_loop s pre)))) = length (reads (trace s)) + length pre
    \<and> releases (trace (snd (capture_loop s pre))) = releases (trace s)
    \<and> opens_of (trace (snd (capture_loop s pre))) = opens_of (trace s)
    \<and> sleeps (trace (snd (capture_loop s pre))) = sleeps (trace s) @ replicate (length pre) 60"
  using assms
proof (induction pre arbitrary: s)
  case Nil
  then show ?case by simp
next
  case (Cons i pre)
  then obtain f t where i: "i = Read_ok f t No_signal"
    by (cases i) (auto simp: complete_def)
  define s1 where "s1 = snd (loop_body s i)"
  have tr: "trace s1 = trace s @
         [Read (Frame_ok f), Now t,
          Imwrite (filepath_of t) f (fst (imwrite (fs s) (filepath_of t) f)),
          Print (msg_saved (filepath_of t)), Sleep 60]"
    unfolding s1_def i loop_body_complete by simp
  have step: "capture_loop s (i # pre) = capture_loop s1 pre"
    unfolding s1_def i loop_body_complete capture_loop.simps by simp
  from Cons.prems have "\<forall>i\<in>set pre. complete i" by simp
  note IH = Cons.IH [OF this, of s1]
  show ?case
    unfolding step using IH
    by (simp add: tr trace_reading_defs replicate_append_same)
qed

section \<open>The output directory stays ready\<close>

lemma filepath_not_save_dir: "filepath_of t \<noteq> save_dir"
  by (simp add: filepath_of_def path_join_def)

lemma imwrite_ready:
  "fs0 save_dir = Some Dir \<Longrightarrow> names_free fs0 \<Longrightarrow>
   imwrite fs0 (filepath_of t) f = (True, fs0(filepath_of t \<mapsto> File f))"
  by (simp add: imwrite_def filepath_of_def path_join_def isdir_def names_free_def)

lemma names_free_write: "names_free fs0 \<Longrightarrow> names_free (fs0(p \<mapsto> File f))"
  by (simp add: names_free_def)

lemma names_free_launch: "names_free fs0 \<Longrightarrow> names_free (fs0(save_dir \<mapsto> Dir))"
  by (simp add: names_free_def path_join_def)

lemma dir_ready_launched: "names_free fs0 \<Longrightarrow> dir_ready (launched fs0)"
  by (simp add: dir_ready_def launched_def names_free_launch)

lemma write_frame_ready:
  assumes "dir_ready s"
  shows "write_frame s f t =
           \<lparr>fs = (fs s)(filepath_of t \<mapsto> File f),
            trace = trace s @ [Now t, Imwrite (filepath_of t) f True]\<rparr>"
  using assms by (simp add: write_frame_def emit_def Let_def imwrite_ready dir_ready_def)

lemma dir_ready_write_frame: "dir_ready s \<Longrightarrow> dir_ready (write_frame s f t)"
  by (simp add: write_frame_ready)
    (simp add: dir_ready_def names_free_write filepath_not_save_dir [symmetric])

lemma dir_ready_emit: "dir_ready (emit e s) = dir_ready s"
  by (simp add: dir_ready_def emit_def)

lemma saves_append: "saves (tr @ tr') = saves tr @ saves tr'"
  by (simp add: saves_def)

lemma saves_ok_append: "saves_ok (tr @ tr') = (saves_ok tr \<and> saves_ok tr')"
  by (auto simp: saves_ok_def saves_append)

lemma saves_ok_Nil: "saves_ok []"
  by (simp add: saves_ok_def saves_def)

lemma saves_ok_Cons:
  "saves_ok (e # tr) = ((case e of Imwrite p f ok \<Rightarrow> ok | _ \<Rightarrow> True) \<and> saves_ok tr)"
  by (cases e) (auto simp: saves_ok_def saves_def)

lemmas saves_ok_simps = saves_ok_append saves_ok_Nil saves_ok_Cons

lemma loop_body_ready:
  assumes "dir_ready s \<and> saves_ok (trace s)"
  shows "dir_ready (snd (loop_body s i)) \<and> saves_ok (trace (snd (loop_body s i)))"
proof (cases i)
  case (Read_ok f t sp)
  have r: "dir_ready (emit (Read (Frame_ok f)) s)"
    using assms by (simp add: dir_ready_emit)
  have w: "dir_ready (write_frame (emit (Read (Frame_ok f)) s) f t)"
    using r by (rule dir_ready_write_frame)
  show ?thesis
    unfolding Read_ok using assms w
    by (simp add: Let_def print_saved_def sleep_interval_def dir_ready_emit trace_emit
        saves_ok_simps write_frame_ready [OF r])
qed (use assms in \<open>simp_all add: dir_ready_emit trace_emit saves_ok_simps\<close>)

lemma after_try_ready:
  "saves_ok (trace s) \<Longrightarrow> saves_ok (trace (snd (after_try ex s)))"
  by (cases "(ex, s)" rule: after_try.cases)
    (simp_all add: cleanup_def trace_emit saves_ok_simps)

lemma run_saves_ok:
  assumes "launch_ok fs0" "names_free fs0"
  shows "saves_ok (trace (snd (run_frames True fs0 script)))"
proof -
  let ?P = "\<lambda>s. dir_ready s \<and> saves_ok (trace s)"
  have start: "?P (launched fs0)"
    using assms(2) by (simp add: dir_ready_launched) (simp add: launched_def saves_ok_simps)
  have loop: "?P (snd (capture_loop (launched fs0) script))"
    by (rule capture_loop_invariant [where P = ?P]) (use start loop_body_ready in auto)
  show ?thesis
  proof (cases "capture_loop (launched fs0) script")
    case (Pair ex s)
    then have ok: "saves_ok (trace s)" using loop by simp
    show ?thesis
    proof (cases ex)
      case None
      then show ?thesis
        unfolding run_frames_launched [OF assms(1)] Pair using ok by simp
    next
      case (Some e)
      obtain oc s4 where a: "after_try e s = (oc, s4)" by fastforce
      from after_try_ready [OF ok, of e] a have "saves_ok (trace s4)" by simp
      then show ?thesis
        unfolding run_frames_launched [OF assms(1)] Pair Some by (simp add: a)
    qed
  qed
qed

section \<open>The read fails\<close>

lemma run_read_failure:
  assumes "launch_ok fs0" and "\<forall>i\<in>set pre. complete i"
  shows "run_frames True fs0 (pre @ Read_failed # rest) =
     (Some Finished,
      cleanup (emit (Print msg_read_failed)
        (emit (Read No_frame) (snd (capture_loop (launched fs0) pre)))))"
  by (simp add: run_frames_launched [OF assms(1)]
      capture_loop_snoc [OF capture_loop_complete [OF assms(2)]])

lemma launched_counts:
  "saves (trace (launched fs0)) = [] \<and> reads (trace (launched fs0)) = []
   \<and> releases (trace (launched fs0)) = 0 \<and> opens_of (trace (launched fs0)) = 1
   \<and> sleeps (trace (launched fs0)) = [] \<and> printed (trace (launched fs0)) = [msg_start]"
  by (simp add: launched_def trace_reading_defs)

section \<open>A Ctrl+C inside the loop\<close>

lemma loop_body_cancelled:
  "cancelled i \<Longrightarrow> fst (loop_body s i) = Some (Raise KeyboardInterrupt)"
proof (cases i)
  case (Read_ok f t sp)
  assume "cancelled i"
  then show ?thesis
    unfolding Read_ok by (cases sp) (simp_all add: cancelled_def Let_def)
qed (simp_all add: cancelled_def)

lemma not_complete_cases: "\<not> complete i \<Longrightarrow> i = Read_failed \<or> cancelled i"
  by (cases i) (simp_all add: complete_def cancelled_def)

lemma loop_body_fs:
  "fs (snd (loop_body s i)) =
     (case i of
        Read_ok f t sp \<Rightarrow>
          if sp = After_read then fs s else snd (imwrite (fs s) (filepath_of t) f)
      | _ \<Rightarrow> fs s)"
proof (cases i)
  case (Read_ok f t sp)
  show ?thesis
    unfolding Read_ok
    by (cases sp) (simp_all add: Let_def statement_defs split: prod.splits)
qed (simp_all add: fs_emit)

lemma loop_body_releases:
  "releases (trace (snd (loop_body s i))) = releases (trace s)"
proof (cases i)
  case (Read_ok f t sp)
  show ?thesis
    unfolding Read_ok
    by (cases sp) (simp_all add: Let_def statement_defs releases_def split: prod.splits)
qed (simp_all add: trace_emit releases_def)

lemma capture_loop_releases:
  "releases (trace (snd (capture_loop s script))) = releases (trace s)"
proof (induction script arbitrary: s)
  case Nil
  then show ?case by simp
next
  case (Cons i script)
  show ?case
    using Cons.IH [of "snd (loop_body s i)"] loop_body_releases [of s i]
    by (cases "loop_body s i") (auto split: option.splits)
qed

lemma run_cancelled:
  assumes "launch_ok fs0" and "\<forall>i\<in>set pre. complete i" and "cancelled i"
  shows "run_frames True fs0 (pre @ i # rest) =
     (Some Finished,
      cleanup (emit (Print msg_stopped)
        (snd (loop_body (snd (capture_loop (launched fs0) pre)) i))))"
proof -
  obtain s' where lb: "loop_body (snd (capture_loop (launched fs0) pre)) i =
      (Some (Raise KeyboardInterrupt), s')"
    using loop_body_cancelled [OF assms(3), of "snd (capture_loop (launched fs0) pre)"]
    by (cases "loop_body (snd (capture_loop (launched fs0) pre)) i") simp
  show ?thesis
    by (simp add: run_frames_launched [OF assms(1)]
        capture_loop_snoc [OF capture_loop_complete [OF assms(2)]] lb)
qed

lemma run_complete:
  assumes "launch_ok fs0" and "\<forall>i\<in>set pre. complete i"
  shows "run_frames True fs0 pre = (None, snd (capture_loop (launched fs0) pre))"
  using capture_loop_complete [OF assms(2), of "launched fs0"]
  by (cases "capture_loop (launched fs0) pre") (simp add: run_frames_launched [OF assms(1)])

text \<open>
  C7: a run in which, after some complete passes \<open>pre\<close>, a Ctrl+C arrives in pass
  \<open>i\<close>: during the read, between the read and the save, between the save and its
  message, or during the sleep. The program ends normally; its last three events are
  the message \<^verbatim>\<open>Stopped by user.\<close>, the release of the stream and the closing of
  the windows, and the stream is released exactly once. The files on disk are those of
  the complete passes when the Ctrl+C arrives before the save, and otherwise exactly
  those that the same pass leaves when nothing interrupts it: a whole file or none.
\<close>

theorem cancellation_is_clean:
  assumes "launch_ok fs0" and "\<forall>i\<in>set pre. complete i" and "cancelled i"
  shows "fst (run_frames True fs0 (pre @ i # rest)) = Some Finished
    \<and> suffix [Print msg_stopped, Release, DestroyAllWindows]
        (trace (snd (run_frames True fs0 (pre @ i # rest))))
    \<and> releases (trace (snd (run_frames True fs0 (pre @ i # rest)))) = 1
    \<and> fs (snd (run_frames True fs0 (pre @ i # rest))) =
        (case i of
           Read_ok f t sp \<Rightarrow>
             if sp = After_read then fs (snd (run_frames True fs0 pre))
             else fs (snd (run_frames True fs0 (pre @ [Read_ok f t No_signal])))
         | _ \<Rightarrow> fs (snd (run_frames True fs0 pre)))"
proof -
  let ?s = "snd (capture_loop (launched fs0) pre)"
  let ?r = "run_frames True fs0 (pre @ i # rest)"
  note run = run_cancelled [OF assms, of rest]
  have 1: "fst ?r = Some Finished" by (simp add: run)
  have tr: "trace (snd ?r) =
      trace (snd (loop_body ?s i)) @ [Print msg_stopped, Release, DestroyAllWindows]"
    by (simp add: run cleanup_def trace_emit)
  have 2: "suffix [Print msg_stopped, Release, DestroyAllWindows] (trace (snd ?r))"
    unfolding tr by (rule suffix_appendI) simp
  have "releases (trace (snd (loop_body ?s i))) = 0"
    by (simp add: loop_body_releases capture_loop_releases launched_counts)
  then have 3: "releases (trace (snd ?r)) = 1"
    unfolding tr by (simp add: releases_def)
  have pre: "fs (snd (run_frames True fs0 pre)) = fs ?s"
    by (simp add: run_complete [OF assms(1,2)])
  have more: "fs (snd (run_frames True fs0 (pre @ [Read_ok f t No_signal]))) =
      snd (imwrite (fs ?s) (filepath_of t) f)" for f t
  proof -
    have c: "\<forall>i\<in>set (pre @ [Read_ok f t No_signal]). complete i"
      using assms(2) by (simp add: complete_def)
    show ?thesis
      by (simp add: run_complete [OF assms(1) c]
          capture_loop_append [OF capture_loop_complete [OF assms(2)]] loop_body_complete
          del: loop_body.simps)
  qed
  have 4: "fs (snd ?r) =
        (case i of
           Read_ok f t sp \<Rightarrow>
             if sp = After_read then fs (snd (run_frames True fs0 pre))
             else fs (snd (run_frames True fs0 (pre @ [Read_ok f t No_signal])))
         | _ \<Rightarrow> fs (snd (run_frames True fs0 pre)))"
    by (simp add: run cleanup_def fs_emit loop_body_fs pre more split: step_input.splits)
  from 1 2 3 4 show ?thesis by blast
qed

text \<open>The statement of C7 at a run cancelled during the sleep after its second save.\<close>

theorem cancellation_is_clean_witness:
  "launch_ok no_files
   \<and> list_all complete [Read_ok [1, 2] reading_a No_signal]
   \<and> cancelled (Read_ok [3] reading_b During_sleep)
   \<and> fst (run_frames True no_files
        [Read_ok [1, 2] reading_a No_signal, Read_ok [3] reading_b During_sleep]) = Some Finished
   \<and> releases (trace (snd (run_frames True no_files
        [Read_ok [1, 2] reading_a No_signal, Read_ok [3] reading_b During_sleep]))) = 1
   \<and> fs (snd (run_frames True no_files
        [Read_ok [1, 2] reading_a No_signal, Read_ok [3] reading_b During_sleep])) =
      fs (snd (run_frames True no_files
        [Read_ok [1, 2] reading_a No_signal, Read_ok [3] reading_b No_signal]))"
proof -
  have h1: "launch_ok no_files" by (simp add: launch_ok_def no_files_def)
  have h2: "\<forall>i\<in>set [Read_ok [1, 2] reading_a No_signal]. complete i"
    by (simp add: complete_def)
  have h3: "cancelled (Read_ok [3] reading_b During_sleep)" by (simp add: cancelled_def)
  show ?thesis
    using h1 h2 h3 cancellation_is_clean [OF h1 h2 h3, of "[]"] by simp
qed

section \<open>Every way out of the program\<close>

lemma run_terminal:
  assumes "launch_ok fs0" and "\<exists>i\<in>set script. \<not> complete i"
  shows "fst (run_frames True fs0 script) = Some Finished
    \<and> releases (trace (snd (run_frames True fs0 script))) = 1
    \<and> suffix [Release, DestroyAllWindows] (trace (snd (run_frames True fs0 script)))"
proof -
  from assms(2) obtain pre i rest where
    sc: "script = pre @ i # rest" and i: "\<not> complete i" and pre: "\<forall>j\<in>set pre. \<not> \<not> complete j"
    using split_list_first_prop [of script "\<lambda>i. \<not> complete i"] by blast
  from pre have pre': "\<forall>j\<in>set pre. complete j" by simp
  let ?s = "snd (capture_loop (launched fs0) pre)"
  have rel: "releases (trace (snd (loop_body ?s i))) = 0"
    by (simp add: loop_body_releases capture_loop_releases launched_counts)
  from i have "i = Read_failed \<or> cancelled i" by (rule not_complete_cases)
  then show ?thesis
  proof
    assume "i = Read_failed"
    then have run: "run_frames True fs0 script =
        (Some Finished, cleanup (snd (loop_body ?s i)))"
      unfolding sc by (simp add: run_read_failure [OF assms(1) pre'])
    have tr: "trace (snd (run_frames True fs0 script)) =
        trace (snd (loop_body ?s i)) @ [Release, DestroyAllWindows]"
      by (simp add: run cleanup_def trace_emit)
    have "suffix [Release, DestroyAllWindows] (trace (snd (run_frames True fs0 script)))"
      unfolding tr by (rule suffix_appendI) simp
    moreover have "releases (trace (snd (run_frames True fs0 script))) = 1"
      unfolding tr using rel by (simp add: releases_def)
    ultimately show ?thesis by (simp add: run)
  next
    assume "cancelled i"
    then have run: "run_frames True fs0 script =
        (Some Finished, cleanup (emit (Print msg_stopped) (snd (loop_body ?s i))))"
      unfolding sc by (rule run_cancelled [OF assms(1) pre'])
    have tr: "trace (snd (run_frames True fs0 script)) =
        (trace (snd (loop_body ?s i)) @ [Print msg_stopped]) @ [Release, DestroyAllWindows]"
      by (simp add: run cleanup_def trace_emit)
    have "suffix [Release, DestroyAllWindows] (trace (snd (run_frames True fs0 script)))"
      unfolding tr by (rule suffix_appendI) simp
    moreover have "releases (trace (snd (run_frames True fs0 script))) = 1"
      unfolding tr using rel by (simp add: releases_def)
    ultimately show ?thesis by (simp add: run)
  qed
qed

lemma loop_body_exit:
  "fst (loop_body s i) = None \<or> fst (loop_body s i) = Some Break
   \<or> fst (loop_body s i) = Some (Raise KeyboardInterrupt)"
proof (cases i)
  case (Read_ok f t sp)
  show ?thesis unfolding Read_ok by (cases sp) (simp_all add: Let_def)
qed simp_all

lemma capture_loop_exit:
  "fst (capture_loop s script) = None \<or> fst (capture_loop s script) = Some Break
   \<or> fst (capture_loop s script) = Some (Raise KeyboardInterrupt)"
proof (induction script arbitrary: s)
  case Nil
  then show ?case by simp
next
  case (Cons i script)
  show ?case
    using Cons.IH [of "snd (loop_body s i)"] loop_body_exit [of s i]
    by (cases "loop_body s i") (auto split: option.splits)
qed

lemma run_never_crashes:
  assumes "launch_ok fs0"
  shows "fst (run_frames opens fs0 script) \<noteq> Some (Crashed e)"
proof (cases opens)
  case False
  then show ?thesis by (simp add: run_frames_def)
next
  case True
  obtain ex s where c: "capture_loop (launched fs0) script = (ex, s)" by fastforce
  from capture_loop_exit [of "launched fs0" script] c
  have "ex = None \<or> ex = Some Break \<or> ex = Some (Raise KeyboardInterrupt)" by simp
  moreover have "run_frames opens fs0 script = run_frames True fs0 script"
    using True by simp
  ultimately show ?thesis
    unfolding run_frames_launched [OF assms] c by auto
qed

text \<open>
  C1, as the program behaves. When the stream does not open, the program leaves through
  \<^verbatim>\<open>exit()\<close> and never calls \<^verbatim>\<open>cap.release()\<close>. When the stream opens, the
  output directory is absent or is a directory, and some pass through the loop ends in
  a failed read or a Ctrl+C, the program ends normally and its last two events are the
  release of the stream, done exactly once, and the closing of the windows. With such
  an output directory no run ends in an exception that nothing handles.
\<close>

theorem terminal_paths:
  "(\<not> opens \<longrightarrow>
      fst (run_frames opens fs0 script) = Some (Exited 0)
      \<and> releases (trace (snd (run_frames opens fs0 script))) = 0)
   \<and> (opens \<and> launch_ok fs0 \<and> (\<exists>i\<in>set script. \<not> complete i) \<longrightarrow>
      fst (run_frames opens fs0 script) = Some Finished
      \<and> releases (trace (snd (run_frames opens fs0 script))) = 1
      \<and> suffix [Release, DestroyAllWindows] (trace (snd (run_frames opens fs0 script))))
   \<and> (launch_ok fs0 \<longrightarrow> (\<forall>e. fst (run_frames opens fs0 script) \<noteq> Some (Crashed e)))"
proof -
  have 1: "\<not> opens \<longrightarrow>
      fst (run_frames opens fs0 script) = Some (Exited 0)
      \<and> releases (trace (snd (run_frames opens fs0 script))) = 0"
    by (simp add: run_frames_def emit_def exit_status_def releases_def)
  have 2: "opens \<and> launch_ok fs0 \<and> (\<exists>i\<in>set script. \<not> complete i) \<longrightarrow>
      fst (run_frames opens fs0 script) = Some Finished
      \<and> releases (trace (snd (run_frames opens fs0 script))) = 1
      \<and> suffix [Release, DestroyAllWindows] (trace (snd (run_frames opens fs0 script)))"
    using run_terminal [of fs0 script] by auto
  have 3: "launch_ok fs0 \<longrightarrow> (\<forall>e. fst (run_frames opens fs0 script) \<noteq> Some (Crashed e))"
    using run_never_crashes by blast
  from 1 2 3 show ?thesis by blast
qed

text \<open>The statement of C1 at a run whose second read is interrupted.\<close>

theorem terminal_paths_witness:
  "launch_ok no_files
   \<and> (\<exists>i\<in>set [Read_ok [1, 2] reading_a No_signal, Read_interrupted]. \<not> complete i)
   \<and> fst (run_frames True no_files [Read_ok [1, 2] reading_a No_signal, Read_interrupted])
       = Some Finished
   \<and> releases (trace (snd (run_frames True no_files
        [Read_ok [1, 2] reading_a No_signal, Read_interrupted]))) = 1"
proof -
  have h1: "launch_ok no_files" by (simp add: launch_ok_def no_files_def)
  have h2: "\<exists>i\<in>set [Read_ok [1, 2] reading_a No_signal, Read_interrupted]. \<not> complete i"
    by (simp add: complete_def)
  show ?thesis
    using h1 h2
      terminal_paths [of True no_files "[Read_ok [1, 2] reading_a No_signal, Read_interrupted]"]
    by blast
qed

text \<open>
  C1 as stated has every terminal path release the stream. The run in which the stream
  does not open ends without a release.
\<close>

theorem open_failure_skips_release:
  "fst (run_frames False no_files []) = Some (Exited 0)
   \<and> releases (trace (snd (run_frames False no_files []))) = 0"
  by (simp add: run_frames_def emit_def exit_status_def releases_def)

section \<open>What a complete pass does, and how long it sleeps\<close>



lemma makedirs_save_dir_fails:
  "\<not> launch_ok fs0 \<Longrightarrow> makedirs fs0 save_dir True = Inl FileExistsError"
  by (subst makedirs.simps)
    (auto simp: launch_ok_def save_dir_def mkdir_leaf_def mkdir_def path_exists_def isdir_def)

lemma run_frames_crashed:
  "\<not> launch_ok fs0 \<Longrightarrow>
   run_frames True fs0 script =
     (Some (Crashed FileExistsError),
      \<lparr>fs = fs0, trace = [VideoCapture stream_url, IsOpened True, Makedirs save_dir]\<rparr>)"
  by (simp add: run_frames_def makedirs_save_dir_fails emit_def)

lemma run_frames_closed:
  "run_frames False fs0 script =
     (Some (Exited 0),
      \<lparr>fs = fs0,
       trace = [VideoCapture stream_url, IsOpened False, Print msg_open_error, Exit]\<rparr>)"
  by (simp add: run_frames_def emit_def exit_status_def)

text \<open>
  A property of traces that holds when the loop is entered, that every pass through the
  loop keeps, and that the lines after the loop keep, holds at the end of every run that
  enters the loop.
\<close>

lemma run_frames_invariant:
  assumes ok: "launch_ok fs0"
    and start: "P (launched fs0)"
    and body: "\<And>s i. P s \<Longrightarrow> P (snd (loop_body s i))"
    and after: "\<And>s ex. P s \<Longrightarrow> P (snd (after_try ex s))"
  shows "P (snd (run_frames True fs0 script))"
proof -
  have loop: "P (snd (capture_loop (launched fs0) script))"
    by (rule capture_loop_invariant [where P = P]) (use start body in auto)
  obtain ex s where c: "capture_loop (launched fs0) script = (ex, s)" by fastforce
  with loop have s: "P s" by simp
  show ?thesis
  proof (cases ex)
    case None
    then show ?thesis unfolding run_frames_launched [OF ok] c using s by simp
  next
    case (Some e)
    obtain oc s4 where a: "after_try e s = (oc, s4)" by fastforce
    from after [OF s, of e] a have "P s4" by simp
    then show ?thesis unfolding run_frames_launched [OF ok] c Some by (simp add: a)
  qed
qed

lemma sleeps_append: "sleeps (tr @ tr') = sleeps tr @ sleeps tr'"
  by (simp add: sleeps_def)

lemma loop_body_sleeps:
  "set (sleeps (trace s)) \<subseteq> {60} \<Longrightarrow> set (sleeps (trace (snd (loop_body s i)))) \<subseteq> {60}"
proof (cases i)
  case (Read_ok f t sp)
  assume "set (sleeps (trace s)) \<subseteq> {60}"
  then show ?thesis
    unfolding Read_ok
    by (cases sp) (simp_all add: Let_def statement_defs sleeps_def split: prod.splits)
qed (simp_all add: trace_emit sleeps_def)

lemma after_try_sleeps:
  "set (sleeps (trace s)) \<subseteq> {60} \<Longrightarrow> set (sleeps (trace (snd (after_try ex s)))) \<subseteq> {60}"
  by (cases "(ex, s)" rule: after_try.cases) (simp_all add: cleanup_def trace_emit sleeps_def)

lemma run_sleeps: "set (sleeps (trace (snd (run_frames opens fs0 script)))) \<subseteq> {60}"
proof (cases opens)
  case False
  then show ?thesis by (simp add: run_frames_closed sleeps_def)
next
  case True
  then have o: "run_frames opens fs0 script = run_frames True fs0 script" by simp
  show ?thesis
  proof (cases "launch_ok fs0")
    case False
    then show ?thesis unfolding o by (simp add: run_frames_crashed sleeps_def)
  next
    case ok: True
    show ?thesis
      unfolding o
      by (rule run_frames_invariant [OF ok, where P = "\<lambda>s. set (sleeps (trace s)) \<subseteq> {60}"])
        (simp_all add: loop_body_sleeps after_try_sleeps launched_counts)
  qed
qed

text \<open>
  C5: every sleep of every run is a sleep of 60 seconds; a run of \<open>n\<close> complete passes
  has slept \<open>n\<close> times 60 seconds, once after each save; and the message printed when
  the loop is entered, the first of the run, speaks of 20 seconds.
\<close>

theorem interval_is_sixty:
  "(\<forall>n\<in>set (sleeps (trace (snd (run_frames opens fs0 script)))). n = 60)
   \<and> (launch_ok fs0 \<and> (\<forall>i\<in>set pre. complete i) \<longrightarrow>
        sleeps (trace (snd (run_frames True fs0 pre))) = replicate (length pre) 60
        \<and> hd (printed (trace (snd (run_frames True fs0 pre)))) = msg_start)
   \<and> msg_start = ''Capturing images every 20 seconds... Press Ctrl+C to stop.''"
proof -
  have 1: "\<forall>n\<in>set (sleeps (trace (snd (run_frames opens fs0 script)))). n = 60"
    using run_sleeps [of opens fs0 script] by auto
  have 2: "sleeps (trace (snd (run_frames True fs0 pre))) = replicate (length pre) 60
        \<and> hd (printed (trace (snd (run_frames True fs0 pre)))) = msg_start"
    if ok: "launch_ok fs0" and c: "\<forall>i\<in>set pre. complete i"
  proof -
    have p: "\<exists>ms. printed (trace (snd (capture_loop s pre))) = printed (trace s) @ ms" for s
      using c
    proof (induction pre arbitrary: s)
      case Nil
      then show ?case by simp
    next
      case (Cons i pre)
      then obtain f t where i: "i = Read_ok f t No_signal"
        by (cases i) (auto simp: complete_def)
      define s1 where "s1 = snd (loop_body s i)"
      have step: "capture_loop s (i # pre) = capture_loop s1 pre"
        unfolding s1_def i loop_body_complete capture_loop.simps by simp
      have "\<exists>ms. printed (trace s1) = printed (trace s) @ ms"
        unfolding s1_def i loop_body_complete by (simp add: printed_def)
      moreover from Cons have "\<exists>ms. printed (trace (snd (capture_loop s1 pre))) =
          printed (trace s1) @ ms" by simp
      ultimately show ?case unfolding step by auto
    qed
    from p [of "launched fs0"] have "hd (printed (trace (snd (capture_loop (launched fs0) pre))))
        = msg_start"
      by (auto simp: launched_counts)
    then show ?thesis
      using complete_loop_counts [OF c, of "launched fs0"]
      by (simp add: run_complete [OF ok c] launched_counts)
  qed
  have 3: "msg_start = ''Capturing images every 20 seconds... Press Ctrl+C to stop.''"
    by (simp add: msg_start_def)
  from 1 2 3 show ?thesis by blast
qed

text \<open>The statement of C5 at a run of two complete passes.\<close>

theorem interval_is_sixty_witness:
  "launch_ok no_files
   \<and> list_all complete [Read_ok [1, 2] reading_a No_signal, Read_ok [3] reading_b No_signal]
   \<and> sleeps (trace (snd (run_frames True no_files
        [Read_ok [1, 2] reading_a No_signal, Read_ok [3] reading_b No_signal]))) = [60, 60]
   \<and> hd (printed (trace (snd (run_frames True no_files
        [Read_ok [1, 2] reading_a No_signal, Read_ok [3] reading_b No_signal])))) =
      ''Capturing images every 20 seconds... Press Ctrl+C to stop.''"
proof -
  have h1: "launch_ok no_files" by (simp add: launch_ok_def no_files_def)
  have h2: "\<forall>i\<in>set [Read_ok [1, 2] reading_a No_signal, Read_ok [3] reading_b No_signal].
    complete i" by (simp add: complete_def)
  show ?thesis
    using h1 h2
      interval_is_sixty [of True no_files "[]"
        "[Read_ok [1, 2] reading_a No_signal, Read_ok [3] reading_b No_signal]"]
    by (simp add: numeral_2_eq_2)
qed

section \<open>Ensuring the output directory\<close>

lemma chain_ok_prefix: "chain_ok fs0 p \<Longrightarrow> prefix q p \<Longrightarrow> chain_ok fs0 q"
  unfolding chain_ok_def by (meson prefix_order.trans)

lemma chain_ok_existing:
  "chain_ok fs0 q \<Longrightarrow> q \<noteq> [] \<Longrightarrow> fs0 q \<noteq> None \<Longrightarrow>
   q' \<noteq> [] \<Longrightarrow> prefix q' q \<Longrightarrow> fs0 q' = Some Dir"
proof (induction q rule: rev_induct)
  case Nil
  then show ?case by simp
next
  case (snoc c qs)
  have top: "fs0 (qs @ [c]) = Some Dir"
    using snoc.prems(1,3) unfolding chain_ok_def by (metis prefix_order.refl snoc_eq_iff_butlast)
  show ?case
  proof (cases "q' = qs @ [c]")
    case True
    then show ?thesis using top by simp
  next
    case False
    with snoc.prems(5) have p: "prefix q' qs" by (simp add: prefix_snoc)
    with snoc.prems(4) have "qs \<noteq> []" by auto
    moreover have "fs0 (butlast (qs @ [c])) \<noteq> None"
      using snoc.prems(1,3) \<open>qs \<noteq> []\<close> unfolding chain_ok_def
      by (metis butlast_snoc prefix_order.refl snoc_eq_iff_butlast)
    moreover have "chain_ok fs0 qs"
      using snoc.prems(1) by (rule chain_ok_prefix) simp
    ultimately show ?thesis
      using snoc.IH snoc.prems(4) p by simp
  qed
qed

lemma dirs_along_single:
  "fs0 [c] = None \<or> fs0 [c] = Some Dir \<Longrightarrow> dirs_along fs0 [c] = fs0([c] \<mapsto> Dir)"
  by (rule ext) (auto simp: dirs_along_def prefix_Cons)

lemma dirs_along_snoc:
  "dirs_along fs0 (ps @ [c]) = (dirs_along fs0 ps)(ps @ [c] \<mapsto> Dir)"
  by (rule ext) (auto simp: dirs_along_def prefix_snoc)

lemma dirs_along_existing:
  assumes "chain_ok fs0 p" "p \<noteq> []" "fs0 p \<noteq> None"
  shows "dirs_along fs0 p = fs0"
proof (rule ext)
  fix q
  show "dirs_along fs0 p q = fs0 q"
    using chain_ok_existing [OF assms, of q] by (simp add: dirs_along_def)
qed

lemma makedirs_chain:
  "chain_ok fs0 p \<Longrightarrow> p \<noteq> [] \<Longrightarrow> ''.'' \<notin> set p \<Longrightarrow>
   makedirs fs0 p True = Inr (dirs_along fs0 p)"
proof (induction p rule: rev_induct)
  case Nil
  then show ?case by simp
next
  case (snoc c ps)
  let ?p = "ps @ [c]"
  have here: "fs0 ?p = None \<or> fs0 ?p = Some Dir"
    using snoc.prems(1) unfolding chain_ok_def by (metis prefix_order.refl snoc_eq_iff_butlast)
  show ?case
  proof (cases "ps = []")
    case True
    show ?thesis
      using here unfolding True
      by (subst makedirs.simps)
        (auto simp: mkdir_leaf_def mkdir_def path_exists_def isdir_def dirs_along_single
          fun_upd_idem)
  next
    case False
    have cps: "chain_ok fs0 ps"
      using snoc.prems(1) by (rule chain_ok_prefix) simp
    show ?thesis
    proof (cases "fs0 ps = None")
      case True
      have rec: "makedirs fs0 ps True = Inr (dirs_along fs0 ps)"
        using snoc.IH cps False snoc.prems(3) by simp
      have free: "fs0 ?p = None"
        using snoc.prems(1) True False unfolding chain_ok_def
        by (metis butlast_snoc prefix_order.refl snoc_eq_iff_butlast)
      have leaf: "mkdir_leaf (dirs_along fs0 ps) ?p True = Inr ((dirs_along fs0 ps)(?p \<mapsto> Dir))"
        using False free
        by (simp add: mkdir_leaf_def mkdir_def path_exists_def isdir_def dirs_along_def)
      have dot: "c \<noteq> ''.''"
        using snoc.prems(3) by auto
      show ?thesis
        using True False dot
        by (subst makedirs.simps) (simp add: path_exists_def rec leaf dirs_along_snoc)
    next
      case ex: False
      have all: "dirs_along fs0 ps = fs0"
        using cps False ex by (rule dirs_along_existing)
      have par: "fs0 ps = Some Dir"
        using chain_ok_existing [OF cps False ex False] by simp
      have leaf: "mkdir_leaf fs0 ?p True = Inr (fs0(?p \<mapsto> Dir))"
        using here par False
        by (auto simp: mkdir_leaf_def mkdir_def path_exists_def isdir_def fun_upd_idem)
      show ?thesis
        using ex False
        by (subst makedirs.simps) (simp add: path_exists_def leaf dirs_along_snoc all)
    qed
  qed
qed

lemma loop_body_extends: "prefix (trace s) (trace (snd (loop_body s i)))"
proof (cases i)
  case (Read_ok f t sp)
  show ?thesis
    unfolding Read_ok
    by (cases sp) (simp_all add: Let_def statement_defs split: prod.splits)
qed (simp_all add: trace_emit)

lemma after_try_extends: "prefix (trace s) (trace (snd (after_try ex s)))"
  by (cases "(ex, s)" rule: after_try.cases) (simp_all add: cleanup_def trace_emit)

lemma after_try_fs: "fs (snd (after_try ex s)) = fs s"
  by (cases "(ex, s)" rule: after_try.cases) (simp_all add: cleanup_def fs_emit)

lemma imwrite_keeps_save_dir: "snd (imwrite fs0 (filepath_of t) f) save_dir = fs0 save_dir"
  by (simp add: imwrite_def filepath_not_save_dir [symmetric])

lemma loop_body_keeps_save_dir: "fs (snd (loop_body s i)) save_dir = fs s save_dir"
  by (simp add: loop_body_fs imwrite_keeps_save_dir split: step_input.splits)

lemma run_keeps_directory:
  assumes "launch_ok fs0"
  shows "fs (snd (run_frames True fs0 script)) save_dir = Some Dir
    \<and> prefix (trace (launched fs0)) (trace (snd (run_frames True fs0 script)))"
proof (rule run_frames_invariant [OF assms, where
      P = "\<lambda>s. fs s save_dir = Some Dir \<and> prefix (trace (launched fs0)) (trace s)"])
  show "fs (launched fs0) save_dir = Some Dir
    \<and> prefix (trace (launched fs0)) (trace (launched fs0))"
    by (simp add: launched_def)
next
  fix s :: state and i
  assume "fs s save_dir = Some Dir \<and> prefix (trace (launched fs0)) (trace s)"
  then show "fs (snd (loop_body s i)) save_dir = Some Dir
    \<and> prefix (trace (launched fs0)) (trace (snd (loop_body s i)))"
    using loop_body_extends [of s i] by (auto simp: loop_body_keeps_save_dir)
next
  fix s :: state and ex
  assume "fs s save_dir = Some Dir \<and> prefix (trace (launched fs0)) (trace s)"
  then show "fs (snd (after_try ex s)) save_dir = Some Dir
    \<and> prefix (trace (launched fs0)) (trace (snd (after_try ex s)))"
    using after_try_extends [of s ex] by (auto simp: after_try_fs)
qed

text \<open>
  C8: when the output directory is absent or is a directory at launch,
  \<^verbatim>\<open>os.makedirs(save_dir, exist_ok=True)\<close> returns without an error, with the
  directory created if it was absent and the disk unchanged if it was there. A run whose
  stream opens then never ends in \<^verbatim>\<open>FileExistsError\<close>; it starts by opening the
  stream, ensuring the directory and printing the start message, so the directory is
  ensured before any pass through the loop and any save; and the directory is there at
  the end of the run, however long the input. Last, what \<^verbatim>\<open>os.makedirs\<close> does with
  a longer path \<open>p\<close>: when every entry along \<open>p\<close> is absent or a directory (and an
  entry that exists has its parent), it succeeds and afterwards \<open>p\<close> and every parent
  of \<open>p\<close> is a directory, nothing else being changed.
\<close>

theorem output_directory_ensured:
  "(launch_ok fs0 \<longrightarrow>
      makedirs fs0 save_dir True = Inr (fs0(save_dir \<mapsto> Dir))
      \<and> (fs0 save_dir = Some Dir \<longrightarrow> makedirs fs0 save_dir True = Inr fs0)
      \<and> fst (run_frames True fs0 script) \<noteq> Some (Crashed FileExistsError)
      \<and> take 4 (trace (snd (run_frames True fs0 script))) =
          [VideoCapture stream_url, IsOpened True, Makedirs save_dir, Print msg_start]
      \<and> fs (snd (run_frames True fs0 script)) save_dir = Some Dir)
   \<and> (chain_ok fs1 p \<and> p \<noteq> [] \<and> ''.'' \<notin> set p \<longrightarrow>
      makedirs fs1 p True = Inr (dirs_along fs1 p)
      \<and> (\<forall>q. q \<noteq> [] \<and> prefix q p \<longrightarrow> dirs_along fs1 p q = Some Dir)
      \<and> (\<forall>q. \<not> prefix q p \<longrightarrow> dirs_along fs1 p q = fs1 q))"
proof -
  have 1: "makedirs fs0 save_dir True = Inr (fs0(save_dir \<mapsto> Dir))
      \<and> (fs0 save_dir = Some Dir \<longrightarrow> makedirs fs0 save_dir True = Inr fs0)
      \<and> fst (run_frames True fs0 script) \<noteq> Some (Crashed FileExistsError)
      \<and> take 4 (trace (snd (run_frames True fs0 script))) =
          [VideoCapture stream_url, IsOpened True, Makedirs save_dir, Print msg_start]
      \<and> fs (snd (run_frames True fs0 script)) save_dir = Some Dir"
    if ok: "launch_ok fs0"
  proof -
    note k = run_keeps_directory [OF ok, of script]
    from k obtain zs where
      "trace (snd (run_frames True fs0 script)) = trace (launched fs0) @ zs"
      by (auto simp: prefix_def)
    then have t: "take 4 (trace (snd (run_frames True fs0 script))) =
          [VideoCapture stream_url, IsOpened True, Makedirs save_dir, Print msg_start]"
      by (simp add: launched_def)
    have i: "fs0 save_dir = Some Dir \<longrightarrow> makedirs fs0 save_dir True = Inr fs0"
      by (simp add: makedirs_save_dir [OF ok] fun_upd_idem)
    show ?thesis
      using makedirs_save_dir [OF ok] i run_never_crashes [OF ok] t k by blast
  qed
  have 2: "makedirs fs1 p True = Inr (dirs_along fs1 p)
      \<and> (\<forall>q. q \<noteq> [] \<and> prefix q p \<longrightarrow> dirs_along fs1 p q = Some Dir)
      \<and> (\<forall>q. \<not> prefix q p \<longrightarrow> dirs_along fs1 p q = fs1 q)"
    if "chain_ok fs1 p \<and> p \<noteq> [] \<and> ''.'' \<notin> set p"
    using that by (simp add: makedirs_chain dirs_along_def)
  from 1 2 show ?thesis by blast
qed

text \<open>
  The statement of C8 at an empty disk, for the output directory of the program and for
  a path of three components.
\<close>

theorem output_directory_ensured_witness:
  "launch_ok no_files
   \<and> makedirs no_files save_dir True = Inr (no_files(save_dir \<mapsto> Dir))
   \<and> fs (snd (run_frames True no_files [Read_ok [1, 2] reading_a No_signal])) save_dir
       = Some Dir
   \<and> chain_ok no_files [''a'', ''b'', ''c'']
   \<and> makedirs no_files [''a'', ''b'', ''c''] True = Inr (dirs_along no_files [''a'', ''b'', ''c''])
   \<and> dirs_along no_files [''a'', ''b'', ''c''] [''a'', ''b''] = Some Dir"
proof -
  have h1: "launch_ok no_files" by (simp add: launch_ok_def no_files_def)
  have h2: "chain_ok no_files [''a'', ''b'', ''c'']" by (simp add: chain_ok_def no_files_def)
  have h3: "prefix [''a'', ''b''] [''a'', ''b'', ''c'']" by simp
  show ?thesis
    using h1 h2 h3
      output_directory_ensured [of no_files "[Read_ok [1, 2] reading_a No_signal]" no_files
        "[''a'', ''b'', ''c'']"]
    by simp
qed

section \<open>File names and the clock\<close>

lemma same_name_same_second:
  assumes "valid_datetime a" "valid_datetime b" "filename_of a = filename_of b"
  shows "epoch_second a = epoch_second b"
  using name_second_filename_of [OF assms(1)] name_second_filename_of [OF assms(2)] assms(3)
  by simp

lemma same_second_close:
  assumes "valid_datetime a" "valid_datetime b" "epoch_second a = epoch_second b"
  shows "micros_apart a b < 1000000"
  using assms by (auto simp: micros_apart_def total_micros_def valid_datetime_def)

lemma apart_names_differ:
  assumes "valid_datetime a" "valid_datetime b" "1000000 < micros_apart a b"
  shows "filename_of a \<noteq> filename_of b"
  using same_second_close [OF assms(1,2)] same_name_same_second [OF assms(1,2)] assms(3)
  by fastforce

lemma clock_readings_append:
  "clock_readings (tr @ tr') = clock_readings tr @ clock_readings tr'"
  by (simp add: clock_readings_def)

lemma loop_body_names:
  assumes "map fst (saves (trace s)) = map filepath_of (clock_readings (trace s))"
  shows "map fst (saves (trace (snd (loop_body s i)))) =
     map filepath_of (clock_readings (trace (snd (loop_body s i))))"
proof (cases i)
  case (Read_ok f t sp)
  show ?thesis
    unfolding Read_ok using assms
    by (cases sp)
      (simp_all add: Let_def statement_defs saves_def clock_readings_def split: prod.splits)
qed (use assms in \<open>simp_all add: trace_emit saves_def clock_readings_def\<close>)

lemma after_try_names:
  assumes "map fst (saves (trace s)) = map filepath_of (clock_readings (trace s))"
  shows "map fst (saves (trace (snd (after_try ex s)))) =
     map filepath_of (clock_readings (trace (snd (after_try ex s))))"
  using assms
  by (cases "(ex, s)" rule: after_try.cases)
    (simp_all add: cleanup_def trace_emit saves_def clock_readings_def)

lemma run_names:
  "map fst (saves (trace (snd (run_frames opens fs0 script)))) =
     map filepath_of (clock_readings (trace (snd (run_frames opens fs0 script))))"
proof (cases opens)
  case False
  then show ?thesis by (simp add: run_frames_closed saves_def clock_readings_def)
next
  case True
  then have o: "run_frames opens fs0 script = run_frames True fs0 script" by simp
  show ?thesis
  proof (cases "launch_ok fs0")
    case False
    then show ?thesis
      unfolding o by (simp add: run_frames_crashed saves_def clock_readings_def)
  next
    case ok: True
    show ?thesis
      unfolding o
    proof (rule run_frames_invariant [OF ok, where
            P = "\<lambda>s. map fst (saves (trace s)) = map filepath_of (clock_readings (trace s))"])
      show "map fst (saves (trace (launched fs0))) =
          map filepath_of (clock_readings (trace (launched fs0)))"
        by (simp add: launched_def saves_def clock_readings_def)
    qed (erule loop_body_names, erule after_try_names)
  qed
qed

lemma run_saved_names:
  "saved_names (trace (snd (run_frames opens fs0 script))) =
     map filename_of (clock_readings (trace (snd (run_frames opens fs0 script))))"
proof -
  have "saved_names (trace (snd (run_frames opens fs0 script))) =
      map last (map fst (saves (trace (snd (run_frames opens fs0 script)))))"
    by (simp add: saved_names_def)
  then show ?thesis
    unfolding run_names by (simp add: filepath_of_def path_join_def)
qed

lemma seconds_increase:
  assumes "\<forall>t\<in>set ts. valid_datetime t" and "successively later_by_a_second ts"
  shows "sorted_wrt (<) (map epoch_second ts)"
proof -
  have "successively (\<lambda>a b. epoch_second a < epoch_second b) ts"
    using assms(2)
  proof (rule successively_mono)
    fix a b
    assume "a \<in> set ts" "b \<in> set ts" "later_by_a_second a b"
    then show "epoch_second a < epoch_second b"
      using assms(1) epoch_second_step [of a b]
      by (simp add: later_by_a_second_def valid_datetime_def)
  qed
  then have "successively (<) (map epoch_second ts)"
    by (simp add: successively_map)
  then show ?thesis
    by (simp add: successively_conv_sorted_wrt [OF transp_on_less])
qed

section \<open>Reads and saves keep in step\<close>

lemma written_snoc:
  "written (tr @ [e]) = written tr @ (case e of Imwrite p f ok \<Rightarrow> [f] | _ \<Rightarrow> [])"
  by (cases e) (simp_all add: written_def saves_def)

lemma frames_read_snoc:
  "frames_read (tr @ [e]) = frames_read tr @ (case e of Read (Frame_ok f) \<Rightarrow> [f] | _ \<Rightarrow> [])"
  by (cases e) (simp_all add: frames_read_def split: read_result.splits)

lemma in_step_snoc:
  "in_step (tr @ [e]) =
     (in_step tr \<and> (aligned (tr @ [e]) \<or> behind (tr @ [e])) \<and> (\<forall>r. e = Read r \<longrightarrow> aligned tr))"
  unfolding in_step_def prefix_snoc by auto

lemma in_step_Nil: "in_step []"
  by (simp add: in_step_def aligned_def written_def saves_def frames_read_def)

lemma tracked_snoc:
  assumes "tracked pend tr" and "track pend [e] = Some pend'"
  shows "tracked pend' (tr @ [e])"
proof (cases e)
  case (Read r)
  with assms(2) have p: "pend = None" by (simp split: if_splits)
  show ?thesis
    using assms unfolding Read p
    by (cases r)
      (auto simp: tracked_def in_step_snoc aligned_def behind_def written_snoc frames_read_snoc)
next
  case (Imwrite p f ok)
  with assms(2) have p: "pend = Some f" "pend' = None" by (simp_all split: if_splits)
  show ?thesis
    using assms unfolding Imwrite p
    by (auto simp: tracked_def in_step_snoc aligned_def behind_def written_snoc frames_read_snoc)
qed (use assms in \<open>auto simp: tracked_def in_step_snoc aligned_def behind_def written_snoc
      frames_read_snoc split: option.splits\<close>)

lemma track_Cons:
  "track pend (e # es) = (case track pend [e] of None \<Rightarrow> None | Some p \<Rightarrow> track p es)"
  by (cases "(pend, e # es)" rule: track.cases) auto

lemma tracked_append:
  "tracked pend tr \<Longrightarrow> track pend es = Some pend' \<Longrightarrow> tracked pend' (tr @ es)"
proof (induction es arbitrary: tr pend)
  case Nil
  then show ?case by simp
next
  case (Cons e es)
  from Cons.prems(2) obtain p where p: "track pend [e] = Some p" "track p es = Some pend'"
    by (subst (asm) track_Cons) (auto split: option.splits)
  from Cons.prems(1) p(1) have "tracked p (tr @ [e])" by (rule tracked_snoc)
  from Cons.IH [OF this p(2)] show ?case by simp
qed

lemma loop_body_track:
  "\<exists>es pend. trace (snd (loop_body s i)) = trace s @ es \<and> track None es = Some pend
     \<and> (fst (loop_body s i) = None \<longrightarrow> pend = None)"
proof (cases i)
  case (Read_ok f t sp)
  show ?thesis
    unfolding Read_ok
    by (cases sp) (simp_all add: Let_def statement_defs split: prod.splits)
qed (simp_all add: trace_emit)

lemma tracked_in_step: "tracked pend tr \<Longrightarrow> in_step tr"
  by (simp add: tracked_def)

lemma loop_body_tracked:
  assumes "tracked None (trace s)"
  shows "in_step (trace (snd (loop_body s i)))
    \<and> (fst (loop_body s i) = None \<longrightarrow> tracked None (trace (snd (loop_body s i))))"
proof -
  from loop_body_track [of s i] obtain es pend where
    es: "trace (snd (loop_body s i)) = trace s @ es" "track None es = Some pend"
      "fst (loop_body s i) = None \<longrightarrow> pend = None"
    by auto
  from tracked_append [OF assms es(2)] have "tracked pend (trace (snd (loop_body s i)))"
    by (simp add: es(1))
  then show ?thesis
    using es(3) tracked_in_step by blast
qed




lemma tracked_launched: "tracked None (trace (launched fs0))"
  using tracked_append [of None "[]" "trace (launched fs0)" None]
  by (simp add: launched_def tracked_def in_step_Nil aligned_def written_def saves_def
      frames_read_def)


lemma capture_loop_tracked:
  assumes "\<forall>i\<in>set pre. complete i" and "tracked None (trace s)"
  shows "tracked None (trace (snd (capture_loop s pre)))"
  using assms
proof (induction pre arbitrary: s)
  case Nil
  then show ?case by simp
next
  case (Cons i pre)
  then obtain f t where i: "i = Read_ok f t No_signal"
    by (cases i) (auto simp: complete_def)
  have n: "fst (loop_body s i) = None" unfolding i by (simp add: Let_def)
  with loop_body_tracked [OF Cons.prems(2), of i]
  have "tracked None (trace (snd (loop_body s i)))" by simp
  with Cons.IH [of "snd (loop_body s i)"] Cons.prems(1) n show ?case
    by (cases "loop_body s i") simp
qed





section \<open>The disk after the saves\<close>

lemma replay_append: "replay fs0 (xs @ ys) = replay (replay fs0 xs) ys"
  by (induction fs0 xs rule: replay.induct) simp_all

lemma imwrite_result:
  "snd (imwrite fs0 p f) = (if fst (imwrite fs0 p f) then fs0(p \<mapsto> File f) else fs0)"
  by (simp add: imwrite_def)

lemma saves_emit: "saves (trace (emit e s)) = saves (trace s) @ saves [e]"
  by (simp add: trace_emit saves_append)

lemma saves_single:
  "saves [e] = (case e of Imwrite p f ok \<Rightarrow> [(p, f, ok)] | _ \<Rightarrow> [])"
  by (cases e) (simp_all add: saves_def)

lemma write_frame_replay:
  assumes "fs s = replay base (saves (trace s))"
  shows "fs (write_frame s f t) = replay base (saves (trace (write_frame s f t)))"
proof -
  obtain ok fs' where w: "imwrite (fs s) (filepath_of t) f = (ok, fs')" by fastforce
  with imwrite_result [of "fs s" "filepath_of t" f]
  have fs': "fs' = (if ok then (fs s)(filepath_of t \<mapsto> File f) else fs s)" by simp
  have st: "write_frame s f t =
      \<lparr>fs = fs', trace = (trace s @ [Now t]) @ [Imwrite (filepath_of t) f ok]\<rparr>"
    by (simp add: write_frame_def emit_def Let_def w)
  have "saves (trace (write_frame s f t)) = saves (trace s) @ [(filepath_of t, f, ok)]"
    unfolding st by (simp add: saves_def)
  then show ?thesis
    using assms by (simp add: st fs' replay_append)
qed

lemma loop_body_replay:
  assumes "fs s = replay base (saves (trace s))"
  shows "fs (snd (loop_body s i)) = replay base (saves (trace (snd (loop_body s i))))"
proof (cases i)
  case (Read_ok f t sp)
  have r: "fs (emit (Read (Frame_ok f)) s) = replay base (saves (trace (emit (Read (Frame_ok f)) s)))"
    using assms by (simp add: fs_emit saves_emit saves_single)
  note w = write_frame_replay [OF r, of f t]
  show ?thesis
    unfolding Read_ok using r w
    by (cases sp)
      (simp_all add: Let_def print_saved_def sleep_interval_def fs_emit saves_emit saves_single)
qed (use assms in \<open>simp_all add: fs_emit saves_emit saves_single\<close>)

lemma after_try_replay:
  assumes "fs s = replay base (saves (trace s))"
  shows "fs (snd (after_try ex s)) = replay base (saves (trace (snd (after_try ex s))))"
  using assms
  by (cases "(ex, s)" rule: after_try.cases)
    (simp_all add: cleanup_def fs_emit saves_emit saves_single)

lemma run_disk:
  assumes "launch_ok fs0"
  shows "fs (snd (run_frames True fs0 script)) =
     replay (fs0(save_dir \<mapsto> Dir)) (saves (trace (snd (run_frames True fs0 script))))"
proof (rule run_frames_invariant [OF assms, where
      P = "\<lambda>s. fs s = replay (fs0(save_dir \<mapsto> Dir)) (saves (trace s))"])
  show "fs (launched fs0) = replay (fs0(save_dir \<mapsto> Dir)) (saves (trace (launched fs0)))"
    by (simp add: launched_def saves_def)
qed (erule loop_body_replay, erule after_try_replay)

lemma replay_elsewhere: "p \<notin> fst ` set xs \<Longrightarrow> replay fs0 xs p = fs0 p"
  by (induction fs0 xs rule: replay.induct) auto

lemma replay_distinct:
  "distinct (map fst xs) \<Longrightarrow> (p, f, True) \<in> set xs \<Longrightarrow> replay fs0 xs p = Some (File f)"
proof (induction fs0 xs rule: replay.induct)
  case (1 fs0)
  then show ?case by simp
next
  case (2 fs0 q g ok xs)
  show ?case
  proof (cases "(p, f, True) = (q, g, ok)")
    case True
    with 2(2) have "p \<notin> fst ` set xs" by auto
    then show ?thesis using True by (simp add: replay_elsewhere)
  next
    case False
    with 2 show ?thesis by auto
  qed
qed

lemma replay_keeps_dirs: "replay fs0 xs p = Some Dir \<Longrightarrow> fs0 p = Some Dir"
  by (induction fs0 xs rule: replay.induct) (auto split: if_splits)

section \<open>The message and the file\<close>

lemma name_of_reading_a: "filename_of reading_a = ''20240309_140507.jpg''"
  by (simp add: filename_of_def strftime_def reading_a_def pad2_def pad4_def digit_def)

lemma name_of_reading_b: "filename_of reading_b = ''20240309_140607.jpg''"
  by (simp add: filename_of_def strftime_def reading_b_def pad2_def pad4_def digit_def)

lemma launch_ok_no_files: "launch_ok no_files"
  by (simp add: launch_ok_def no_files_def)

lemma launch_ok_dir_in_the_way: "launch_ok dir_in_the_way"
  by (simp add: launch_ok_def dir_in_the_way_def no_files_def filepath_not_save_dir [symmetric])

lemma imwrite_succeeds:
  "fs0 save_dir = Some Dir \<Longrightarrow> fs0 (filepath_of t) \<noteq> Some Dir \<Longrightarrow>
   imwrite fs0 (filepath_of t) f = (True, fs0(filepath_of t \<mapsto> File f))"
  by (simp add: imwrite_def filepath_of_def path_join_def isdir_def)

lemma imwrite_blocked:
  "fs0 (filepath_of t) = Some Dir \<Longrightarrow> imwrite fs0 (filepath_of t) f = (False, fs0)"
  by (simp add: imwrite_def)

text \<open>
  C6 at a failing input. The stream opens, the disk holds a directory at the path
  \<^verbatim>\<open>captured_images/20240309_140507.jpg\<close>, the first read succeeds and the clock
  reads 14:05:07 on 9 March 2024. \<^verbatim>\<open>cv2.imwrite\<close> returns false and writes
  nothing; the program, which does not look at the result, prints \<^verbatim>\<open>Saved:\<close> with
  that path and goes to sleep. After the message there is no file at the path: the disk
  is the disk of the launch and holds no file at all.
\<close>

theorem saved_message_without_file:
  "trace (snd (run_frames True dir_in_the_way [Read_ok [1, 2] reading_a No_signal])) =
     [VideoCapture stream_url, IsOpened True, Makedirs save_dir, Print msg_start,
      Read (Frame_ok [1, 2]), Now reading_a,
      Imwrite [''captured_images'', ''20240309_140507.jpg''] [1, 2] False,
      Print ''Saved: captured_images/20240309_140507.jpg'',
      Sleep 60]
   \<and> fs (snd (run_frames True dir_in_the_way [Read_ok [1, 2] reading_a No_signal])) =
       no_files([''captured_images'', ''20240309_140507.jpg''] \<mapsto> Dir,
         [''captured_images''] \<mapsto> Dir)"
proof -
  have b: "imwrite (dir_in_the_way(save_dir \<mapsto> Dir)) (filepath_of reading_a) f =
      (False, dir_in_the_way(save_dir \<mapsto> Dir))" for f
    by (rule imwrite_blocked) (simp add: dir_in_the_way_def filepath_not_save_dir [symmetric])
  have p: "filepath_of reading_a = [''captured_images'', ''20240309_140507.jpg'']"
    by (simp add: filepath_of_def path_join_def save_dir_def name_of_reading_a)
  have "run_frames True dir_in_the_way [Read_ok [1, 2] reading_a No_signal] =
      (None,
       \<lparr>fs = dir_in_the_way(save_dir \<mapsto> Dir),
        trace = trace (launched dir_in_the_way) @
          [Read (Frame_ok [1, 2]), Now reading_a, Imwrite (filepath_of reading_a) [1, 2] False,
           Print (msg_saved (filepath_of reading_a)), Sleep 60]\<rparr>)"
    by (simp add: run_frames_launched [OF launch_ok_dir_in_the_way] loop_body_complete b
        launched_def del: loop_body.simps)
  then show ?thesis
    by (simp add: launched_def msg_saved_def p) (simp add: dir_in_the_way_def p save_dir_def)
qed

text \<open>
  When nothing is in the way of the write the file is there after the message. In a run
  launched with an output directory that is absent or a directory, take the pass that
  follows any number of complete passes, with a successful read of the frame \<open>f\<close> and
  a clock reading \<open>t\<close> whose path is not a directory at launch. The state \<open>s'\<close>
  right after its message is the state in which the run then goes to sleep. In \<open>s'\<close>
  the last event is the message \<^verbatim>\<open>Saved:\<close> with the path, the file at that path
  holds the frame \<open>f\<close>, the last component of the path is the file name, the file name
  read back gives the year, month, day, hour, minute and second of \<open>t\<close>, and \<open>t\<close> is
  the last reading of the clock, taken by this pass just before the write.
\<close>

lemma written_file_exists:
  assumes "launch_ok fs0" and "fs0 (filepath_of t) \<noteq> Some Dir"
    and "\<forall>i\<in>set pre. complete i" and "valid_datetime t"
  shows "let s = snd (run_frames True fs0 pre);
             s' = print_saved (write_frame (emit (Read (Frame_ok f)) s) f t) t
         in run_frames True fs0 (pre @ [Read_ok f t No_signal]) = (None, sleep_interval s')
            \<and> last (trace s') = Print (msg_saved (filepath_of t))
            \<and> fs s' (filepath_of t) = Some (File f)
            \<and> last (filepath_of t) = filename_of t
            \<and> name_fields (filename_of t) =
                (year t, month t, day t, hour t, minute t, second t)
            \<and> last (clock_readings (trace s')) = t"
proof -
  let ?s = "snd (capture_loop (launched fs0) pre)"
  let ?s' = "print_saved (write_frame (emit (Read (Frame_ok f)) ?s) f t) t"
  have s: "snd (run_frames True fs0 pre) = ?s"
    by (simp add: run_complete [OF assms(1,3)])
  have d: "fs ?s save_dir = Some Dir"
    using run_keeps_directory [OF assms(1), of pre] by (simp add: s)
  have "fs ?s (filepath_of t) \<noteq> Some Dir"
  proof
    assume "fs ?s (filepath_of t) = Some Dir"
    then have "replay (fs0(save_dir \<mapsto> Dir)) (saves (trace ?s)) (filepath_of t) = Some Dir"
      using run_disk [OF assms(1), of pre] by (simp add: s)
    then have "(fs0(save_dir \<mapsto> Dir)) (filepath_of t) = Some Dir"
      by (rule replay_keeps_dirs)
    then show False
      using assms(2) by (simp add: filepath_not_save_dir)
  qed
  with d have w: "write_frame (emit (Read (Frame_ok f)) ?s) f t =
      \<lparr>fs = (fs ?s)(filepath_of t \<mapsto> File f),
       trace = trace ?s @ [Read (Frame_ok f), Now t, Imwrite (filepath_of t) f True]\<rparr>"
    by (simp add: write_frame_def emit_def Let_def imwrite_succeeds)
  have c: "\<forall>i\<in>set (pre @ [Read_ok f t No_signal]). complete i"
    using assms(3) by (simp add: complete_def)
  have 1: "run_frames True fs0 (pre @ [Read_ok f t No_signal]) = (None, sleep_interval ?s')"
    by (simp add: run_complete [OF assms(1) c]
        capture_loop_append [OF capture_loop_complete [OF assms(3)]] Let_def)
  have 2: "last (trace ?s') = Print (msg_saved (filepath_of t))"
    by (simp add: print_saved_def trace_emit)
  have 3: "fs ?s' (filepath_of t) = Some (File f)"
    by (simp add: print_saved_def fs_emit w)
  have 4: "last (filepath_of t) = filename_of t"
    by (simp add: filepath_of_def path_join_def)
  note 5 = name_fields_filename_of [OF assms(4)]
  have 6: "last (clock_readings (trace ?s')) = t"
    by (simp add: print_saved_def trace_emit w clock_readings_def)
  from 1 2 3 4 5 6 show ?thesis
    unfolding s Let_def by blast
qed

section \<open>The files of a run that ends on a failed read\<close>

lemma written_append: "written (tr @ tr') = written tr @ written tr'"
  by (simp add: written_def saves_append)

lemma frames_read_append: "frames_read (tr @ tr') = frames_read tr @ frames_read tr'"
  by (simp add: frames_read_def)

lemma saved_files_on_disk:
  assumes "saves_ok tr" and "distinct (map fst (saves tr))"
  shows "(\<forall>x\<in>set (saves tr). replay fs0 (saves tr) (fst x) = Some (File (fst (snd x))))
    \<and> card (fst ` set (saves tr)) = length (saves tr)"
proof -
  have "replay fs0 (saves tr) (fst x) = Some (File (fst (snd x)))" if "x \<in> set (saves tr)" for x
  proof -
    from assms(1) that have "snd (snd x)" by (simp add: saves_ok_def)
    then have "x = (fst x, fst (snd x), True)" by (cases x) auto
    with that have "(fst x, fst (snd x), True) \<in> set (saves tr)" by simp
    with assms(2) show ?thesis by (rule replay_distinct)
  qed
  moreover have "card (fst ` set (saves tr)) = length (saves tr)"
    using distinct_card [OF assms(2)] by simp
  ultimately show ?thesis by blast
qed

text \<open>
  C3, as the program behaves: a run in which the first \<open>k - 1\<close> passes through the loop
  are complete (\<open>pre\<close>, so that \<open>k = length pre + 1\<close>) and the read of pass \<open>k\<close>
  fails, whatever the input holds after it. The program ends normally; its last four
  events are the failed read, the message \<^verbatim>\<open>Failed to grab frame.\<close>, the release
  of the stream and the closing of the windows; it has read \<open>k\<close> times and called
  \<^verbatim>\<open>cv2.imwrite\<close> \<open>k - 1\<close> times, with the frames it read, in their order; the
  stream was opened once only (there is no reconnection) and released exactly once. The
  disk at the end is the disk of the launch, with the output directory, after these
  \<open>k - 1\<close> saves: a save whose \<^verbatim>\<open>cv2.imwrite\<close> returned false has left nothing,
  and a later save to the same path has replaced the earlier file. So when every write
  succeeded (as it does when no entry of the output directory is a directory) and no
  two saves went to the same path, each of the \<open>k - 1\<close> paths holds the frame saved
  there, and these are \<open>k - 1\<close> files.
\<close>

theorem read_failure_is_fatal:
  assumes "launch_ok fs0" and "\<forall>i\<in>set pre. complete i"
  shows "let r = run_frames True fs0 (pre @ Read_failed # rest); tr = trace (snd r)
         in fst r = Some Finished
            \<and> suffix [Read No_frame, Print msg_read_failed, Release, DestroyAllWindows] tr
            \<and> length (reads tr) = length pre + 1
            \<and> length (saves tr) = length pre
            \<and> written tr = frames_read tr
            \<and> opens_of tr = 1
            \<and> releases tr = 1
            \<and> fs (snd r) = replay (fs0(save_dir \<mapsto> Dir)) (saves tr)
            \<and> (names_free fs0 \<longrightarrow> saves_ok tr)
            \<and> (saves_ok tr \<and> distinct (map fst (saves tr)) \<longrightarrow>
                 (\<forall>x\<in>set (saves tr). fs (snd r) (fst x) = Some (File (fst (snd x))))
                 \<and> card (fst ` set (saves tr)) = length pre)"
proof -
  let ?s = "snd (capture_loop (launched fs0) pre)"
  let ?r = "run_frames True fs0 (pre @ Read_failed # rest)"
  have tr: "trace (snd ?r) =
      trace ?s @ [Read No_frame, Print msg_read_failed, Release, DestroyAllWindows]"
    by (simp add: run_read_failure [OF assms] cleanup_def trace_emit)
  note c = complete_loop_counts [OF assms(2), of "launched fs0"]
  have 1: "fst ?r = Some Finished"
    by (simp add: run_read_failure [OF assms])
  have 2: "suffix [Read No_frame, Print msg_read_failed, Release, DestroyAllWindows]
        (trace (snd ?r))"
    unfolding tr by (rule suffix_appendI) simp
  have 3: "length (reads (trace (snd ?r))) = length pre + 1"
    unfolding tr using c by (simp add: reads_def launched_def)
  have 4: "length (saves (trace (snd ?r))) = length pre"
    unfolding tr using c by (simp add: saves_def launched_def)
  have "tracked None (trace ?s)"
    using assms(2) tracked_launched by (rule capture_loop_tracked)
  then have "written (trace ?s) = frames_read (trace ?s)"
    by (simp add: tracked_def aligned_def)
  then have 5: "written (trace (snd ?r)) = frames_read (trace (snd ?r))"
    unfolding tr by (simp add: written_append frames_read_append)
      (simp add: written_def saves_def frames_read_def)
  have 6: "opens_of (trace (snd ?r)) = 1"
    unfolding tr using c by (simp add: opens_of_def launched_def)
  have 7: "releases (trace (snd ?r)) = 1"
    unfolding tr using c by (simp add: releases_def launched_def)
  note 8 = run_disk [OF assms(1), of "pre @ Read_failed # rest"]
  have 9: "names_free fs0 \<longrightarrow> saves_ok (trace (snd ?r))"
    using run_saves_ok [OF assms(1)] by blast
  have 10: "saves_ok (trace (snd ?r)) \<and> distinct (map fst (saves (trace (snd ?r)))) \<longrightarrow>
      (\<forall>x\<in>set (saves (trace (snd ?r))). fs (snd ?r) (fst x) = Some (File (fst (snd x))))
      \<and> card (fst ` set (saves (trace (snd ?r)))) = length pre"
    using saved_files_on_disk [of "trace (snd ?r)" "fs0(save_dir \<mapsto> Dir)"] 4
    unfolding 8 [symmetric] by simp
  from 1 2 3 4 5 6 7 8 9 10 show ?thesis
    unfolding Let_def by blast
qed

text \<open>
  The statement of C3 at a run on an empty disk with two complete passes a minute apart
  and a failing third read: two files.
\<close>

theorem read_failure_is_fatal_witness:
  "launch_ok no_files
   \<and> list_all complete [Read_ok [1, 2] reading_a No_signal, Read_ok [3] reading_b No_signal]
   \<and> fst (run_frames True no_files
        [Read_ok [1, 2] reading_a No_signal, Read_ok [3] reading_b No_signal, Read_failed])
       = Some Finished
   \<and> saves (trace (snd (run_frames True no_files
        [Read_ok [1, 2] reading_a No_signal, Read_ok [3] reading_b No_signal, Read_failed])))
       = [(filepath_of reading_a, [1, 2], True), (filepath_of reading_b, [3], True)]
   \<and> card (fst ` set (saves (trace (snd (run_frames True no_files
        [Read_ok [1, 2] reading_a No_signal, Read_ok [3] reading_b No_signal, Read_failed])))))
       = 2
   \<and> fs (snd (run_frames True no_files
        [Read_ok [1, 2] reading_a No_signal, Read_ok [3] reading_b No_signal, Read_failed]))
        (filepath_of reading_a) = Some (File [1, 2])
   \<and> fs (snd (run_frames True no_files
        [Read_ok [1, 2] reading_a No_signal, Read_ok [3] reading_b No_signal, Read_failed]))
        (filepath_of reading_b) = Some (File [3])
   \<and> releases (trace (snd (run_frames True no_files
        [Read_ok [1, 2] reading_a No_signal, Read_ok [3] reading_b No_signal, Read_failed])))
       = 1"
proof -
  let ?pre = "[Read_ok [1, 2] reading_a No_signal, Read_ok [3] reading_b No_signal]"
  let ?r = "run_frames True no_files (?pre @ Read_failed # [])"
  have h1: "launch_ok no_files" by (rule launch_ok_no_files)
  have h2: "\<forall>i\<in>set ?pre. complete i" by (simp add: complete_def)
  have h3: "names_free no_files" by (simp add: names_free_def no_files_def)
  note t = read_failure_is_fatal [OF h1 h2, of "[]", unfolded Let_def]
  have ne: "filepath_of reading_a \<noteq> filepath_of reading_b"
    by (simp add: filepath_of_def path_join_def name_of_reading_a name_of_reading_b)
  have d: "no_files save_dir = None" by (simp add: no_files_def)
  have w1: "imwrite (no_files(save_dir \<mapsto> Dir)) (filepath_of reading_a) f =
      (True, no_files(save_dir \<mapsto> Dir, filepath_of reading_a \<mapsto> File f))" for f
    by (rule imwrite_succeeds) (simp_all add: no_files_def filepath_not_save_dir)
  have w2: "imwrite (no_files(save_dir \<mapsto> Dir, filepath_of reading_a \<mapsto> File g))
      (filepath_of reading_b) f =
      (True, no_files(save_dir \<mapsto> Dir, filepath_of reading_a \<mapsto> File g,
         filepath_of reading_b \<mapsto> File f))" for f g
    by (rule imwrite_succeeds)
      (simp_all add: no_files_def filepath_not_save_dir filepath_not_save_dir [symmetric] ne
        ne [symmetric])
  have sv: "saves (trace (snd ?r)) =
      [(filepath_of reading_a, [1, 2], True), (filepath_of reading_b, [3], True)]"
    using run_read_failure [OF h1 h2, of "[]"]
    by (simp add: loop_body_complete w1 w2 launched_def cleanup_def emit_def saves_def
        del: loop_body.simps)
  have ok: "saves_ok (trace (snd ?r))" using t h3 by blast
  have di: "distinct (map fst (saves (trace (snd ?r))))"
    unfolding sv using ne by simp
  from t ok di have files: "(\<forall>x\<in>set (saves (trace (snd ?r))).
      fs (snd ?r) (fst x) = Some (File (fst (snd x))))
      \<and> card (fst ` set (saves (trace (snd ?r)))) = length ?pre"
    by blast
  then have "fs (snd ?r) (filepath_of reading_a) = Some (File [1, 2])"
    and "fs (snd ?r) (filepath_of reading_b) = Some (File [3])"
    unfolding sv by simp_all
  with t sv files h1 h2 show ?thesis
    by simp
qed

text \<open>
  C3 as stated has exactly \<open>k - 1\<close> files saved. With a directory at the path of the
  first file, the run whose second read fails (\<open>k = 2\<close>) has made its one save and
  ends with no file on the disk. And on an empty disk, the run whose third read fails
  (\<open>k = 3\<close>) after two saves within the same second of the clock ends with one file.
\<close>

theorem read_failure_fewer_files:
  "fst (run_frames True dir_in_the_way [Read_ok [1, 2] reading_a No_signal, Read_failed])
     = Some Finished
   \<and> saves (trace (snd (run_frames True dir_in_the_way
        [Read_ok [1, 2] reading_a No_signal, Read_failed])))
     = [(filepath_of reading_a, [1, 2], False)]
   \<and> fs (snd (run_frames True dir_in_the_way
        [Read_ok [1, 2] reading_a No_signal, Read_failed]))
     = no_files(filepath_of reading_a \<mapsto> Dir, save_dir \<mapsto> Dir)
   \<and> fst (run_frames True no_files
        [Read_ok [1, 2] reading_a No_signal, Read_ok [3] reading_a No_signal, Read_failed])
     = Some Finished
   \<and> saves (trace (snd (run_frames True no_files
        [Read_ok [1, 2] reading_a No_signal, Read_ok [3] reading_a No_signal, Read_failed])))
     = [(filepath_of reading_a, [1, 2], True), (filepath_of reading_a, [3], True)]
   \<and> fs (snd (run_frames True no_files
        [Read_ok [1, 2] reading_a No_signal, Read_ok [3] reading_a No_signal, Read_failed]))
     = no_files(save_dir \<mapsto> Dir, filepath_of reading_a \<mapsto> File [3])"
proof -
  have c1: "\<forall>i\<in>set [Read_ok [1, 2] reading_a No_signal]. complete i"
    by (simp add: complete_def)
  have c2: "\<forall>i\<in>set [Read_ok [1, 2] reading_a No_signal, Read_ok [3] reading_a No_signal].
      complete i"
    by (simp add: complete_def)
  have b: "imwrite (dir_in_the_way(save_dir \<mapsto> Dir)) (filepath_of reading_a) f =
      (False, dir_in_the_way(save_dir \<mapsto> Dir))" for f
    by (rule imwrite_blocked) (simp add: dir_in_the_way_def filepath_not_save_dir [symmetric])
  have w1: "imwrite (no_files(save_dir \<mapsto> Dir)) (filepath_of reading_a) f =
      (True, no_files(save_dir \<mapsto> Dir, filepath_of reading_a \<mapsto> File f))" for f
    by (rule imwrite_succeeds) (simp_all add: no_files_def filepath_not_save_dir)
  have w2: "imwrite (no_files(save_dir \<mapsto> Dir, filepath_of reading_a \<mapsto> File g))
      (filepath_of reading_a) f =
      (True, no_files(save_dir \<mapsto> Dir, filepath_of reading_a \<mapsto> File f))" for f g
    using imwrite_succeeds [of "no_files(save_dir \<mapsto> Dir, filepath_of reading_a \<mapsto> File g)"
        reading_a f]
    by (simp add: filepath_not_save_dir [symmetric])
  have r1: "run_frames True dir_in_the_way ([Read_ok [1, 2] reading_a No_signal] @ Read_failed # [])
      = (Some Finished,
         \<lparr>fs = dir_in_the_way(save_dir \<mapsto> Dir),
          trace = trace (launched dir_in_the_way) @
            [Read (Frame_ok [1, 2]), Now reading_a,
             Imwrite (filepath_of reading_a) [1, 2] False,
             Print (msg_saved (filepath_of reading_a)), Sleep 60,
             Read No_frame, Print msg_read_failed, Release, DestroyAllWindows]\<rparr>)"
    using run_read_failure [OF launch_ok_dir_in_the_way c1, of "[]"]
    by (simp add: loop_body_complete b launched_def cleanup_def emit_def
        del: loop_body.simps)
  have r2: "run_frames True no_files
      ([Read_ok [1, 2] reading_a No_signal, Read_ok [3] reading_a No_signal] @ Read_failed # [])
      = (Some Finished,
         \<lparr>fs = no_files(save_dir \<mapsto> Dir, filepath_of reading_a \<mapsto> File [3]),
          trace = trace (launched no_files) @
            [Read (Frame_ok [1, 2]), Now reading_a,
             Imwrite (filepath_of reading_a) [1, 2] True,
             Print (msg_saved (filepath_of reading_a)), Sleep 60,
             Read (Frame_ok [3]), Now reading_a,
             Imwrite (filepath_of reading_a) [3] True,
             Print (msg_saved (filepath_of reading_a)), Sleep 60,
             Read No_frame, Print msg_read_failed, Release, DestroyAllWindows]\<rparr>)"
    using run_read_failure [OF launch_ok_no_files c2, of "[]"]
    by (simp add: loop_body_complete w1 w2 launched_def cleanup_def emit_def
        del: loop_body.simps)
  from r1 r2 show ?thesis
    by (simp add: saves_def launched_def dir_in_the_way_def)
qed

section \<open>The wall clock and the sleep\<close>

lemma clock_kept_append:
  "clock_kept st (es @ es') = (clock_kept st es \<and> clock_kept (clock_state st es) es')"
  by (induction st es rule: clock_kept.induct) simp_all

lemma clock_state_append:
  "clock_state st (es @ es') = clock_state (clock_state st es) es'"
  by (induction st es rule: clock_state.induct) simp_all

lemma successively_snoc:
  "successively P (xs @ [x]) = (successively P xs \<and> (xs = [] \<or> P (last xs) x))"
  by (cases xs rule: rev_cases) (auto simp: successively_append_iff)

lemma reading_after_sleep:
  assumes "slept_since_reading tr" and "readings_advance tr"
    and "clock_kept None (tr @ [Now t])"
  shows "successively later_by_a_second (clock_readings tr @ [t])"
proof -
  from assms(3) have k: "clock_kept None tr" and n: "clock_kept (clock_state None tr) [Now t]"
    by (simp_all add: clock_kept_append)
  from assms(2) k have s: "successively later_by_a_second (clock_readings tr)"
    by (simp add: readings_advance_def)
  show ?thesis
  proof (cases "clock_state None tr")
    case None
    with assms(1) have "clock_readings tr = []" by (simp add: slept_since_reading_def)
    then show ?thesis by simp
  next
    case (Some a)
    obtain t0 slept where a: "a = (t0, slept)" by (cases a)
    from assms(1) Some a have l: "last (clock_readings tr) = t0" and sl: "60 \<le> slept"
      by (simp_all add: slept_since_reading_def)
    from n Some a have "total_micros t0 + slept * 1000000 \<le> total_micros t" by simp
    moreover from sl have "60 * 1000000 \<le> slept * 1000000" by simp
    ultimately have "later_by_a_second t0 t" by (simp add: later_by_a_second_def)
    with s l show ?thesis by (simp add: successively_snoc)
  qed
qed

lemma readings_advance_quiet:
  assumes "readings_advance tr" and "clock_readings es = []"
  shows "readings_advance (tr @ es)"
  using assms by (simp add: readings_advance_def clock_kept_append clock_readings_append)

lemma readings_advance_pass:
  assumes "readings_advance tr" and "slept_since_reading tr" and "clock_readings es = []"
  shows "readings_advance (tr @ Read r # Now t # es)"
  unfolding readings_advance_def
proof
  assume k: "clock_kept None (tr @ Read r # Now t # es)"
  then have "clock_kept None (tr @ [Now t])"
    by (simp add: clock_kept_append)
  with assms(2,1) have "successively later_by_a_second (clock_readings tr @ [t])"
    by (rule reading_after_sleep)
  moreover have "clock_readings (tr @ Read r # Now t # es) = clock_readings tr @ [t]"
    using assms(3) clock_readings_append [of "[Read r, Now t]" es]
    by (simp add: clock_readings_append) (simp add: clock_readings_def)
  ultimately show "successively later_by_a_second (clock_readings (tr @ Read r # Now t # es))"
    by simp
qed

lemma loop_body_readings:
  assumes "readings_advance (trace s) \<and> slept_since_reading (trace s)"
  shows "readings_advance (trace (snd (loop_body s i)))
    \<and> (fst (loop_body s i) = None \<longrightarrow> slept_since_reading (trace (snd (loop_body s i))))"
proof (cases i)
  case Read_interrupted
  have "readings_advance (trace s @ [Read Interrupted])"
    using assms by (intro readings_advance_quiet) (simp_all add: clock_readings_def)
  then show ?thesis by (simp add: Read_interrupted trace_emit)
next
  case Read_failed
  have "readings_advance (trace s @ [Read No_frame, Print msg_read_failed])"
    using assms by (intro readings_advance_quiet) (simp_all add: clock_readings_def)
  then show ?thesis by (simp add: Read_failed trace_emit)
next
  case (Read_ok f t sp)
  obtain ok fs' where w: "imwrite (fs s) (filepath_of t) f = (ok, fs')" by fastforce
  have a: "readings_advance (trace s @ [Read (Frame_ok f)])"
    using assms by (intro readings_advance_quiet) (simp_all add: clock_readings_def)
  have b: "readings_advance (trace s @ Read (Frame_ok f) # Now t # es)"
    if "clock_readings es = []" for es
    using assms that by (intro readings_advance_pass) simp_all
  have b1: "readings_advance (trace s @
      [Read (Frame_ok f), Now t, Imwrite (filepath_of t) f ok])"
    by (rule b) (simp add: clock_readings_def)
  have b2: "readings_advance (trace s @
      [Read (Frame_ok f), Now t, Imwrite (filepath_of t) f ok,
       Print (msg_saved (filepath_of t)), Sleep 60])"
    by (rule b) (simp add: clock_readings_def)
  have c: "slept_since_reading (trace s @
      [Read (Frame_ok f), Now t, Imwrite (filepath_of t) f ok,
       Print (msg_saved (filepath_of t)), Sleep 60])"
    by (simp add: slept_since_reading_def clock_state_append clock_readings_append)
      (simp add: clock_readings_def)
  show ?thesis
    unfolding Read_ok using a b1 b2 c
    by (cases sp) (simp_all add: Let_def statement_defs w)
qed

lemma after_try_readings:
  assumes "readings_advance (trace s)"
  shows "readings_advance (trace (snd (after_try ex s)))"
proof (cases "(ex, s)" rule: after_try.cases)
  case (1 s')
  have "readings_advance (trace s @ [Release, DestroyAllWindows])"
    using assms by (intro readings_advance_quiet) (simp_all add: clock_readings_def)
  then show ?thesis using 1 by (simp add: cleanup_def trace_emit)
next
  case (2 s')
  have "readings_advance (trace s @ [Print msg_stopped, Release, DestroyAllWindows])"
    using assms by (intro readings_advance_quiet) (simp_all add: clock_readings_def)
  then show ?thesis using 2 by (simp add: cleanup_def trace_emit)
qed (use assms in simp_all)

lemma run_readings_advance: "readings_advance (trace (snd (run_frames opens fs0 script)))"
proof (cases opens)
  case False
  then show ?thesis
    by (simp add: run_frames_closed readings_advance_def clock_readings_def)
next
  case True
  then have o: "run_frames opens fs0 script = run_frames True fs0 script" by simp
  show ?thesis
  proof (cases "launch_ok fs0")
    case False
    then show ?thesis
      unfolding o by (simp add: run_frames_crashed readings_advance_def clock_readings_def)
  next
    case ok: True
    have start: "readings_advance (trace (launched fs0)) \<and> slept_since_reading (trace (launched fs0))"
      by (simp add: launched_def readings_advance_def slept_since_reading_def clock_readings_def)
    have loop: "readings_advance (trace (snd (capture_loop (launched fs0) script)))"
      by (rule capture_loop_invariant [where
            P = "\<lambda>s. readings_advance (trace s) \<and> slept_since_reading (trace s)"])
        (use start loop_body_readings in auto)
    obtain ex s where c: "capture_loop (launched fs0) script = (ex, s)" by fastforce
    with loop have s: "readings_advance (trace s)" by simp
    show ?thesis
    proof (cases ex)
      case None
      then show ?thesis unfolding o run_frames_launched [OF ok] c using s by simp
    next
      case (Some e)
      obtain oc s4 where a: "after_try e s = (oc, s4)" by fastforce
      from after_try_readings [OF s, of e] a have "readings_advance (trace s4)" by simp
      then show ?thesis unfolding o run_frames_launched [OF ok] c Some by (simp add: a)
    qed
  qed
qed

section \<open>File names of a run\<close>

text \<open>
  C9, as the program behaves: two clock readings more than one second apart give
  different file names. The program reads the wall clock anew for every save and sleeps
  60 seconds after it; so in any run in which the wall clock keeps time (every reading
  is later than the one before it by at least the time slept between the two), every
  reading is more than one second later than the one before it, the seconds that the
  saved file names encode, taken in the order of the saves, increase strictly, and no
  two saved files have the same name. The same holds of any run whose successive
  readings are each more than one second later than the one before.
\<close>

theorem timestamp_names_distinct:
  "let tr = trace (snd (run_frames opens fs0 script))
   in (valid_datetime a \<and> valid_datetime b \<and> 1000000 < micros_apart a b \<longrightarrow>
         filename_of a \<noteq> filename_of b)
      \<and> ((\<forall>t\<in>set (clock_readings tr). valid_datetime t) \<and> clock_kept None tr \<longrightarrow>
           successively later_by_a_second (clock_readings tr)
           \<and> sorted_wrt (<) (map name_second (saved_names tr))
           \<and> distinct (saved_names tr))
      \<and> ((\<forall>t\<in>set (clock_readings tr). valid_datetime t)
           \<and> successively later_by_a_second (clock_readings tr) \<longrightarrow>
           sorted_wrt (<) (map name_second (saved_names tr))
           \<and> distinct (saved_names tr))"
proof -
  let ?tr = "trace (snd (run_frames opens fs0 script))"
  let ?ts = "clock_readings ?tr"
  have 1: "valid_datetime a \<and> valid_datetime b \<and> 1000000 < micros_apart a b \<longrightarrow>
      filename_of a \<noteq> filename_of b"
    using apart_names_differ by blast
  have 3: "sorted_wrt (<) (map name_second (saved_names ?tr)) \<and> distinct (saved_names ?tr)"
    if v: "\<forall>t\<in>set ?ts. valid_datetime t" and l: "successively later_by_a_second ?ts"
  proof -
    have e: "map name_second (map filename_of ?ts) = map epoch_second ?ts"
      using v by (simp add: name_second_filename_of)
    have s: "sorted_wrt (<) (map name_second (map filename_of ?ts))"
      unfolding e by (rule seconds_increase [OF v l])
    then have "distinct (map name_second (map filename_of ?ts))"
      unfolding strict_sorted_iff by blast
    then have "distinct (map filename_of ?ts)"
      unfolding distinct_map [of name_second] by blast
    with s show ?thesis
      unfolding run_saved_names by simp
  qed
  have 2: "successively later_by_a_second ?ts" if "clock_kept None ?tr"
    using run_readings_advance [of opens fs0 script] that by (simp add: readings_advance_def)
  from 1 2 3 show ?thesis
    unfolding Let_def by blast
qed

text \<open>
  The statement of C9 at a run of two complete passes whose clock readings are 60.16
  seconds apart.
\<close>

theorem timestamp_names_distinct_witness:
  "valid_datetime reading_a \<and> valid_datetime reading_b
   \<and> 1000000 < micros_apart reading_a reading_b
   \<and> filename_of reading_a \<noteq> filename_of reading_b
   \<and> clock_kept None (trace (snd (run_frames True no_files
        [Read_ok [1, 2] reading_a No_signal, Read_ok [3] reading_b No_signal])))
   \<and> sorted_wrt (<) (map name_second (saved_names (trace (snd (run_frames True no_files
        [Read_ok [1, 2] reading_a No_signal, Read_ok [3] reading_b No_signal])))))
   \<and> distinct (saved_names (trace (snd (run_frames True no_files
        [Read_ok [1, 2] reading_a No_signal, Read_ok [3] reading_b No_signal]))))"
proof -
  let ?sc = "[Read_ok [1, 2] reading_a No_signal, Read_ok [3] reading_b No_signal]"
  let ?tr = "trace (snd (run_frames True no_files ?sc))"
  have va: "valid_datetime reading_a"
    by (simp add: valid_datetime_def reading_a_def days_in_month_def DAYS_IN_MONTH_def)
  have vb: "valid_datetime reading_b"
    by (simp add: valid_datetime_def reading_b_def days_in_month_def DAYS_IN_MONTH_def)
  have sec: "epoch_second reading_b = epoch_second reading_a + 60"
    by (simp add: epoch_second_def reading_a_def reading_b_def)
  have mu: "total_micros reading_a + 60 * 1000000 \<le> total_micros reading_b"
    by (simp add: total_micros_def sec) (simp add: reading_a_def reading_b_def)
  have ap: "1000000 < micros_apart reading_a reading_b"
    by (simp add: micros_apart_def total_micros_def sec) (simp add: reading_a_def reading_b_def)
  have c: "\<forall>i\<in>set ?sc. complete i" by (simp add: complete_def)
  have tr: "?tr = trace (launched no_files) @
      [Read (Frame_ok [1, 2]), Now reading_a,
       Imwrite (filepath_of reading_a) [1, 2]
         (fst (imwrite (no_files(save_dir \<mapsto> Dir)) (filepath_of reading_a) [1, 2])),
       Print (msg_saved (filepath_of reading_a)), Sleep 60,
       Read (Frame_ok [3]), Now reading_b,
       Imwrite (filepath_of reading_b) [3]
         (fst (imwrite (snd (imwrite (no_files(save_dir \<mapsto> Dir)) (filepath_of reading_a) [1, 2]))
            (filepath_of reading_b) [3])),
       Print (msg_saved (filepath_of reading_b)), Sleep 60]"
    using run_complete [OF launch_ok_no_files c]
    by (simp add: loop_body_complete launched_def del: loop_body.simps)
  have k: "clock_kept None ?tr"
    unfolding tr using mu by (simp add: launched_def)
  have ts: "clock_readings ?tr = [reading_a, reading_b]"
    unfolding tr by (simp add: launched_def clock_readings_def)
  have v: "\<forall>t\<in>set (clock_readings ?tr). valid_datetime t"
    unfolding ts using va vb by simp
  show ?thesis
    using va vb ap v k
      timestamp_names_distinct [of True no_files ?sc reading_a reading_b, unfolded Let_def]
    by blast
qed

text \<open>
  C9 as stated has the file name timestamps of every run increase strictly. In the run
  of two complete passes whose two readings of the wall clock are the same (the clock
  was set back by the time slept), the program has slept 60 seconds after each save and
  the two saves have the same file name.
\<close>

theorem same_reading_same_name:
  "sleeps (trace (snd (run_frames True no_files
      [Read_ok [1, 2] reading_a No_signal, Read_ok [3] reading_a No_signal]))) = [60, 60]
   \<and> saved_names (trace (snd (run_frames True no_files
      [Read_ok [1, 2] reading_a No_signal, Read_ok [3] reading_a No_signal])))
     = [''20240309_140507.jpg'', ''20240309_140507.jpg'']
   \<and> \<not> distinct (saved_names (trace (snd (run_frames True no_files
      [Read_ok [1, 2] reading_a No_signal, Read_ok [3] reading_a No_signal]))))
   \<and> \<not> sorted_wrt (<) (map name_second (saved_names (trace (snd (run_frames True no_files
      [Read_ok [1, 2] reading_a No_signal, Read_ok [3] reading_a No_signal])))))"
proof -
  let ?sc = "[Read_ok [1, 2] reading_a No_signal, Read_ok [3] reading_a No_signal]"
  let ?tr = "trace (snd (run_frames True no_files ?sc))"
  have c: "\<forall>i\<in>set ?sc. complete i" by (simp add: complete_def)
  have sl: "sleeps ?tr = [60, 60]"
    using run_complete [OF launch_ok_no_files c]
    by (simp add: loop_body_complete launched_def sleeps_def del: loop_body.simps)
  have ts: "clock_readings ?tr = [reading_a, reading_a]"
    using run_complete [OF launch_ok_no_files c]
    by (simp add: loop_body_complete launched_def clock_readings_def del: loop_body.simps)
  have n: "saved_names ?tr = [''20240309_140507.jpg'', ''20240309_140507.jpg'']"
    unfolding run_saved_names ts by (simp add: name_of_reading_a)
  from sl n show ?thesis by simp
qed

end
